theory Spec2Isabelle
  imports Main "HOL-Library.Sublist"
begin

section \<open>Text, characters and lines\<close>

text \<open>
  The module \<^verbatim>\<open>plugin/completion/compiler_variant.py\<close> turns compiler output into a list
  of dictionaries by applying regular expressions to text. Python text (\<^verbatim>\<open>str\<close>) is
  modelled as \<^typ>\<open>string\<close>; a \<^typ>\<open>char\<close> stands for the code point of the same number, so
  the model covers the texts whose code points are below 256. The three character
  classes that the patterns use are written out as Python's \<^verbatim>\<open>re\<close> defines them on that
  range for \<^verbatim>\<open>str\<close> patterns.
\<close>

definition is_linebreak :: "char \<Rightarrow> bool" where
  \<comment> \<open>the line boundaries of \<^verbatim>\<open>str.splitlines\<close>\<close>
  "is_linebreak c =
     (c = CHR 0x0A \<or> c = CHR 0x0B \<or> c = CHR 0x0C \<or> c = CHR 0x0D \<or>
      c = CHR 0x1C \<or> c = CHR 0x1D \<or> c = CHR 0x1E \<or> c = CHR 0x85)"

definition is_digit :: "char \<Rightarrow> bool" where
  \<comment> \<open>\<^verbatim>\<open>\d\<close>\<close>
  "is_digit c =
     (c = CHR ''0'' \<or> c = CHR ''1'' \<or> c = CHR ''2'' \<or> c = CHR ''3'' \<or> c = CHR ''4'' \<or>
      c = CHR ''5'' \<or> c = CHR ''6'' \<or> c = CHR ''7'' \<or> c = CHR ''8'' \<or> c = CHR ''9'')"

definition is_space :: "char \<Rightarrow> bool" where
  \<comment> \<open>\<^verbatim>\<open>\s\<close>\<close>
  "is_space c =
     (c = CHR 0x09 \<or> c = CHR 0x0A \<or> c = CHR 0x0B \<or> c = CHR 0x0C \<or> c = CHR 0x0D \<or>
      c = CHR 0x1C \<or> c = CHR 0x1D \<or> c = CHR 0x1E \<or> c = CHR 0x1F \<or> c = CHR 0x20 \<or>
      c = CHR 0x85 \<or> c = CHR 0xA0)"

text \<open>
  \<^verbatim>\<open>str.splitlines()\<close>: the text is cut at every line boundary, the boundary is not
  kept, a carriage return directly followed by a line feed is one boundary, and no
  empty last line is produced for a text that ends with a boundary. The first argument
  is the line being collected.
\<close>

fun splitlines_from :: "string \<Rightarrow> string \<Rightarrow> string list" where
  "splitlines_from cur [] = (if cur = [] then [] else [cur])"
| "splitlines_from cur (c # s) =
     (if is_linebreak c then
        cur # (case s of
                 [] \<Rightarrow> []
               | d # s' \<Rightarrow>
                   if c = CHR 0x0D \<and> d = CHR 0x0A then splitlines_from [] s'
                   else splitlines_from [] s)
      else splitlines_from (cur @ [c]) s)"

definition splitlines :: "string \<Rightarrow> string list" where
  "splitlines s = splitlines_from [] s"

section \<open>Regular expressions as Python's \<^verbatim>\<open>re\<close> matches them\<close>

text \<open>
  The patterns of the module are sequences of four kinds of item: one character of a
  class, a greedy \<^verbatim>\<open>*\<close> or \<^verbatim>\<open>+\<close> of a class, and a named group around an item. A class
  is \<^verbatim>\<open>.\<close> (any character but the line feed), \<^verbatim>\<open>\d\<close>, \<^verbatim>\<open>\s\<close> or a literal character.
\<close>

datatype cclass = Dot | Digit | Space | Lit char

fun in_class :: "cclass \<Rightarrow> char \<Rightarrow> bool" where
  "in_class Dot c = (c \<noteq> CHR 0x0A)"
| "in_class Digit c = is_digit c"
| "in_class Space c = is_space c"
| "in_class (Lit l) c = (c = l)"

datatype item = One cclass | Star cclass | Plus cclass | Named string item

type_synonym regex = "item list"

definition lits :: "string \<Rightarrow> regex" where
  "lits w = map (\<lambda>c. One (Lit c)) w"

text \<open>
  The matcher is the backtracking one: every item offers its ways of matching in the
  order in which the engine tries them, and the first way that lets the rest of the
  pattern match wins. A state is the text still to be read together with the groups
  captured so far. A greedy repetition first tries to take one more character and
  gives the shorter repetitions only afterwards.
\<close>

type_synonym groups = "string \<rightharpoonup> string"

fun star :: "cclass \<Rightarrow> string \<Rightarrow> string list" where
  "star a [] = [[]]"
| "star a (c # s) = (if in_class a c then star a s @ [c # s] else [c # s])"

fun alts_item :: "item \<Rightarrow> string \<Rightarrow> groups \<Rightarrow> (string \<times> groups) list" where
  "alts_item (One a) s g =
     (case s of [] \<Rightarrow> [] | c # s' \<Rightarrow> if in_class a c then [(s', g)] else [])"
| "alts_item (Star a) s g = map (\<lambda>s'. (s', g)) (star a s)"
| "alts_item (Plus a) s g =
     (case s of [] \<Rightarrow> []
      | c # s' \<Rightarrow> if in_class a c then map (\<lambda>s''. (s'', g)) (star a s') else [])"
| "alts_item (Named n i) s g =
     map (\<lambda>(s', g'). (s', g'(n \<mapsto> take (length s - length s') s))) (alts_item i s g)"

fun alts :: "regex \<Rightarrow> string \<Rightarrow> groups \<Rightarrow> (string \<times> groups) list" where
  "alts [] s g = [(s, g)]"
| "alts (i # r) s g = concat (map (\<lambda>(s', g'). alts r s' g') (alts_item i s g))"

definition match_at :: "regex \<Rightarrow> string \<Rightarrow> groups option" where
  "match_at r s = (case alts r s Map.empty of [] \<Rightarrow> None | (s', g) # _ \<Rightarrow> Some g)"

text \<open>\<^verbatim>\<open>pattern.search(text)\<close>: the match at the leftmost position that has one.\<close>

fun search :: "regex \<Rightarrow> string \<Rightarrow> groups option" where
  "search r [] = match_at r []"
| "search r (c # s) =
     (case match_at r (c # s) of Some g \<Rightarrow> Some g | None \<Rightarrow> search r s)"

text \<open>
  \<^verbatim>\<open>match.groupdict()\<close>: a dictionary with one key for every named group of the
  pattern; a group that took no part in the match has the value \<^verbatim>\<open>None\<close>.
\<close>

datatype pyval = NoneVal | StrVal string

type_synonym error_dict = "string \<rightharpoonup> pyval"

fun group_names_item :: "item \<Rightarrow> string list" where
  "group_names_item (Named n i) = n # group_names_item i"
| "group_names_item _ = []"

definition group_names :: "regex \<Rightarrow> string list" where
  "group_names r = concat (map group_names_item r)"

definition groupdict :: "regex \<Rightarrow> groups \<Rightarrow> error_dict" where
  "groupdict r g =
     (\<lambda>n. if n \<in> set (group_names r)
          then Some (case g n of None \<Rightarrow> NoneVal | Some t \<Rightarrow> StrVal t)
          else None)"

section \<open>The compiler variants\<close>

datatype variant =
  CompilerVariant | ClangCompilerVariant | ClangClCompilerVariant | LibClangCompilerVariant

datatype py_error = NotImplementedError | AttributeError

text \<open>
  A diagnostic of libclang, as the parser sees it: the texts that \<^verbatim>\<open>str(diag.location)\<close>
  and \<^verbatim>\<open>str(diag.spelling)\<close> give.
\<close>

record diag =
  location :: string
  spelling :: string

text \<open>The argument \<^verbatim>\<open>output\<close> is a text for the clang binaries and a list of
  diagnostics for libclang.\<close>

datatype compiler_output = Text string | Diagnostics "diag list"

text \<open>Class attributes, looked up through the class hierarchy.\<close>

fun init_flags :: "variant \<Rightarrow> string list option" where
  "init_flags ClangCompilerVariant = Some [''-c'', ''-fsyntax-only'', ''-x c++'']"
| "init_flags ClangClCompilerVariant = Some [''-c'', ''-fsyntax-only'']"
| "init_flags _ = None"

text \<open>
  The attribute \<^verbatim>\<open>error_regex\<close> of the two clang classes. In the source:
  \<^verbatim>\<open>(?P<file>.*):(?P<row>\d+):(?P<col>\d+):\s*.*error: (?P<error>.*)\<close> for clang and
  \<^verbatim>\<open>(?P<file>.*)\((?P<row>\d+),(?P<col>\d+)\)\s*:\s*.*error: (?P<error>.*)\<close> for clang-cl.
\<close>

definition ClangCompilerVariant_error_regex :: regex where
  "ClangCompilerVariant_error_regex =
     [Named ''file'' (Star Dot),
      One (Lit CHR '':''), Named ''row'' (Plus Digit),
      One (Lit CHR '':''), Named ''col'' (Plus Digit),
      One (Lit CHR '':''), Star Space, Star Dot] @ lits ''error: '' @
     [Named ''error'' (Star Dot)]"

text \<open>The clang pattern after its group \<^verbatim>\<open>file\<close>.\<close>

abbreviation clang_tail :: regex where
  "clang_tail \<equiv> [One (Lit CHR '':''), Named ''row'' (Plus Digit),
       One (Lit CHR '':''), Named ''col'' (Plus Digit),
       One (Lit CHR '':''), Star Space, Star Dot] @ lits ''error: '' @
      [Named ''error'' (Star Dot)]"

definition ClangClCompilerVariant_error_regex :: regex where
  "ClangClCompilerVariant_error_regex =
     [Named ''file'' (Star Dot),
      One (Lit CHR ''(''), Named ''row'' (Plus Digit),
      One (Lit CHR '',''), Named ''col'' (Plus Digit),
      One (Lit CHR '')''), Star Space,
      One (Lit CHR '':''), Star Space, Star Dot] @ lits ''error: '' @
     [Named ''error'' (Star Dot)]"

fun error_regex :: "variant \<Rightarrow> regex option" where
  "error_regex ClangCompilerVariant = Some ClangCompilerVariant_error_regex"
| "error_regex ClangClCompilerVariant = Some ClangClCompilerVariant_error_regex"
| "error_regex _ = None"

text \<open>
  The two patterns of the libclang class. In the source:
  \<^verbatim>\<open>'(?P<file>.+)'.*line\s(?P<row>\d+), column\s(?P<col>\d+)\<close> for the position and
  \<^verbatim>\<open>"*(?P<error>.+)"*\<close> for the message.
\<close>

definition pos_regex :: regex where
  "pos_regex =
     [One (Lit CHR 0x27), Named ''file'' (Plus Dot), One (Lit CHR 0x27), Star Dot] @
     lits ''line'' @ [One Space, Named ''row'' (Plus Digit)] @ lits '', column'' @
     [One Space, Named ''col'' (Plus Digit)]"

definition msg_regex :: regex where
  "msg_regex = [Star (Lit CHR 0x22), Named ''error'' (Plus Dot), Star (Lit CHR 0x22)]"

text \<open>
  The loop of \<^verbatim>\<open>ClangCompilerVariant.errors_from_output\<close> over the lines, with the list
  \<^verbatim>\<open>errors\<close> as it grows.
\<close>

fun clang_loop :: "regex \<Rightarrow> error_dict list \<Rightarrow> string list \<Rightarrow> error_dict list" where
  "clang_loop re errors [] = errors"
| "clang_loop re errors (line # lines) =
     (case search re line of
        None \<Rightarrow> clang_loop re errors lines
      | Some error_search \<Rightarrow> clang_loop re (errors @ [groupdict re error_search]) lines)"

text \<open>
  The method of \<^verbatim>\<open>ClangCompilerVariant\<close>, which \<^verbatim>\<open>ClangClCompilerVariant\<close> inherits:
  \<^verbatim>\<open>self.error_regex\<close> is the attribute of the class of \<^verbatim>\<open>self\<close>. A list has no method
  \<^verbatim>\<open>splitlines\<close>.
\<close>

fun clang_errors_from_output :: "variant \<Rightarrow> compiler_output \<Rightarrow> py_error + error_dict list" where
  "clang_errors_from_output self (Text s) =
     (case error_regex self of
        None \<Rightarrow> Inl AttributeError
      | Some re \<Rightarrow> Inr (clang_loop re [] (splitlines s)))"
| "clang_errors_from_output self (Diagnostics ds) = Inl AttributeError"

text \<open>
  The loop of \<^verbatim>\<open>LibClangCompilerVariant.errors_from_output\<close>. Both searches are made
  before either result is looked at. The two calls of \<^verbatim>\<open>log.error\<close> write to the log of
  the module and leave the returned list alone; the log is not part of the model.
\<close>

fun libclang_loop :: "error_dict list \<Rightarrow> diag list \<Rightarrow> error_dict list" where
  "libclang_loop errors [] = errors"
| "libclang_loop errors (d # ds) =
     (let pos_search = search pos_regex (location d);
          msg_search = search msg_regex (spelling d)
      in case pos_search of
           None \<Rightarrow> libclang_loop errors ds
         | Some p \<Rightarrow>
             (case msg_search of
                None \<Rightarrow> libclang_loop errors ds
              | Some m \<Rightarrow>
                  libclang_loop (errors @ [groupdict pos_regex p ++ groupdict msg_regex m]) ds))"

text \<open>
  Iterating over a text gives its characters, which have no attribute \<^verbatim>\<open>location\<close>;
  over the empty text the loop body never runs.
\<close>

fun libclang_errors_from_output :: "compiler_output \<Rightarrow> py_error + error_dict list" where
  "libclang_errors_from_output (Diagnostics ds) = Inr (libclang_loop [] ds)"
| "libclang_errors_from_output (Text s) = (if s = [] then Inr [] else Inl AttributeError)"

fun errors_from_output :: "variant \<Rightarrow> compiler_output \<Rightarrow> py_error + error_dict list" where
  "errors_from_output CompilerVariant outp = Inl NotImplementedError"
| "errors_from_output ClangCompilerVariant outp =
     clang_errors_from_output ClangCompilerVariant outp"
| "errors_from_output ClangClCompilerVariant outp =
     clang_errors_from_output ClangClCompilerVariant outp"
| "errors_from_output LibClangCompilerVariant outp = libclang_errors_from_output outp"

section \<open>Properties of the matcher\<close>

text \<open>What the alternatives of an item and of a pattern are, as sets: the text is split
  into what the item takes and what is left.\<close>

lemma set_star: "set (star a s) = {t. \<exists>p. s = p @ t \<and> (\<forall>c\<in>set p. in_class a c)}"
proof (induction s)
  case Nil
  then show ?case by auto
next
  case (Cons c s)
  show ?case
  proof (cases "in_class a c")
    case True
    with Cons show ?thesis
      by (auto simp: Cons_eq_append_conv)
  next
    case False
    then show ?thesis
      by (auto simp: Cons_eq_append_conv)
  qed
qed

lemma in_alts_item_One:
  "(t, h) \<in> set (alts_item (One a) s g) \<longleftrightarrow> (\<exists>c. s = c # t \<and> in_class a c \<and> h = g)"
  by (cases s) auto

lemma in_alts_item_Star:
  "(t, h) \<in> set (alts_item (Star a) s g) \<longleftrightarrow>
     h = g \<and> (\<exists>p. s = p @ t \<and> (\<forall>c\<in>set p. in_class a c))"
  by (auto simp: set_star)

lemma in_alts_item_Plus:
  "(t, h) \<in> set (alts_item (Plus a) s g) \<longleftrightarrow>
     h = g \<and> (\<exists>p. p \<noteq> [] \<and> s = p @ t \<and> (\<forall>c\<in>set p. in_class a c))"
proof (cases s)
  case Nil
  then show ?thesis by auto
next
  case (Cons c s')
  show ?thesis
  proof (cases "in_class a c")
    case True
    with Cons show ?thesis
      apply (auto simp: set_star Cons_eq_append_conv)
      done
  next
    case False
    with Cons show ?thesis
      by (auto simp: Cons_eq_append_conv)
  qed
qed

lemma in_alts_item_Named:
  "(t, h) \<in> set (alts_item (Named n i) s g) \<longleftrightarrow>
     (\<exists>k. (t, k) \<in> set (alts_item i s g) \<and> h = k(n \<mapsto> take (length s - length t) s))"
  by auto

lemma in_alts_Cons:
  "(t, h) \<in> set (alts (i # r) s g) \<longleftrightarrow>
     (\<exists>u k. (u, k) \<in> set (alts_item i s g) \<and> (t, h) \<in> set (alts r u k))"
  by auto

lemma in_alts_item_Named_Star:
  "(t, h) \<in> set (alts_item (Named n (Star a)) s g) \<longleftrightarrow>
     (\<exists>p. s = p @ t \<and> (\<forall>c\<in>set p. in_class a c) \<and> h = g(n \<mapsto> p))"
  by (auto simp: in_alts_item_Named in_alts_item_Star simp del: alts_item.simps)

lemma in_alts_item_Named_Plus:
  "(t, h) \<in> set (alts_item (Named n (Plus a)) s g) \<longleftrightarrow>
     (\<exists>p. p \<noteq> [] \<and> s = p @ t \<and> (\<forall>c\<in>set p. in_class a c) \<and> h = g(n \<mapsto> p))"
  by (auto simp: in_alts_item_Named in_alts_item_Plus simp del: alts_item.simps)

lemma lits_Nil_append: "lits [] @ r = r"
  by (simp add: lits_def)

lemma lits_Cons_append: "lits (c # w) @ r = One (Lit c) # lits w @ r"
  by (simp add: lits_def)

lemma alts_One_iff:
  "(t, h) \<in> set (alts (One a # r) s g) \<longleftrightarrow>
     (\<exists>c u. s = c # u \<and> in_class a c \<and> (t, h) \<in> set (alts r u g))"
  by (simp only: in_alts_Cons in_alts_item_One) blast

lemma alts_Star_iff:
  "(t, h) \<in> set (alts (Star a # r) s g) \<longleftrightarrow>
     (\<exists>p u. s = p @ u \<and> (\<forall>c\<in>set p. in_class a c) \<and> (t, h) \<in> set (alts r u g))"
  by (simp only: in_alts_Cons in_alts_item_Star) blast

lemma alts_Plus_iff:
  "(t, h) \<in> set (alts (Plus a # r) s g) \<longleftrightarrow>
     (\<exists>p u. p \<noteq> [] \<and> s = p @ u \<and> (\<forall>c\<in>set p. in_class a c) \<and> (t, h) \<in> set (alts r u g))"
  by (simp only: in_alts_Cons in_alts_item_Plus) blast

lemma alts_Named_Star_iff:
  "(t, h) \<in> set (alts (Named n (Star a) # r) s g) \<longleftrightarrow>
     (\<exists>p u. s = p @ u \<and> (\<forall>c\<in>set p. in_class a c) \<and> (t, h) \<in> set (alts r u (g(n \<mapsto> p))))"
  by (simp only: in_alts_Cons in_alts_item_Named_Star) blast

lemma alts_Named_Plus_iff:
  "(t, h) \<in> set (alts (Named n (Plus a) # r) s g) \<longleftrightarrow>
     (\<exists>p u. p \<noteq> [] \<and> s = p @ u \<and> (\<forall>c\<in>set p. in_class a c) \<and>
            (t, h) \<in> set (alts r u (g(n \<mapsto> p))))"
  by (simp only: in_alts_Cons in_alts_item_Named_Plus) blast

lemma alts_Nil_iff: "(t, h) \<in> set (alts [] s g) \<longleftrightarrow> t = s \<and> h = g"
  by auto

lemmas alts_iffs =
  alts_One_iff alts_Star_iff alts_Plus_iff alts_Named_Star_iff alts_Named_Plus_iff alts_Nil_iff

lemmas regex_norm = append_Cons append_Nil lits_Nil_append lits_Cons_append

lemma alts_One_I:
  "in_class a c \<Longrightarrow> (t, h) \<in> set (alts r u g) \<Longrightarrow> (t, h) \<in> set (alts (One a # r) (c # u) g)"
  by (simp only: alts_One_iff) blast

lemma alts_Star_I:
  "\<forall>c\<in>set p. in_class a c \<Longrightarrow> (t, h) \<in> set (alts r u g) \<Longrightarrow>
   (t, h) \<in> set (alts (Star a # r) (p @ u) g)"
  by (simp only: alts_Star_iff) blast

lemma alts_Plus_I:
  "p \<noteq> [] \<Longrightarrow> \<forall>c\<in>set p. in_class a c \<Longrightarrow> (t, h) \<in> set (alts r u g) \<Longrightarrow>
   (t, h) \<in> set (alts (Plus a # r) (p @ u) g)"
  by (simp only: alts_Plus_iff) blast

lemma alts_Named_Star_I:
  "\<forall>c\<in>set p. in_class a c \<Longrightarrow> (t, h) \<in> set (alts r u (g(n \<mapsto> p))) \<Longrightarrow>
   (t, h) \<in> set (alts (Named n (Star a) # r) (p @ u) g)"
  by (simp only: alts_Named_Star_iff) blast

lemma alts_Named_Plus_I:
  "p \<noteq> [] \<Longrightarrow> \<forall>c\<in>set p. in_class a c \<Longrightarrow> (t, h) \<in> set (alts r u (g(n \<mapsto> p))) \<Longrightarrow>
   (t, h) \<in> set (alts (Named n (Plus a) # r) (p @ u) g)"
  by (simp only: alts_Named_Plus_iff) blast

lemma alts_Nil_I: "(t, g) \<in> set (alts [] t g)"
  by simp

lemmas alts_intros =
  alts_One_I alts_Star_I alts_Plus_I alts_Named_Star_I alts_Named_Plus_I alts_Nil_I

lemma clang_tail_sound:
  assumes "(t, h) \<in> set (alts ([One (Lit CHR '':''), Named ''row'' (Plus Digit),
       One (Lit CHR '':''), Named ''col'' (Plus Digit),
       One (Lit CHR '':''), Star Space, Star Dot] @ lits ''error: '' @
      [Named ''error'' (Star Dot)]) s g)"
  shows "\<exists>r c m e. s = CHR '':'' # r @ CHR '':'' # c @ CHR '':'' # m @ ''error: '' @ e @ t \<and>
      r \<noteq> [] \<and> list_all is_digit r \<and> c \<noteq> [] \<and> list_all is_digit c \<and>
      h = g(''row'' \<mapsto> r, ''col'' \<mapsto> c, ''error'' \<mapsto> e)"
proof -
  from assms obtain r c sp m e where
    "s = CHR '':'' # r @ CHR '':'' # c @ CHR '':'' # sp @ m @ ''error: '' @ e @ t"
    "r \<noteq> []" "\<forall>x\<in>set r. in_class Digit x" "c \<noteq> []" "\<forall>x\<in>set c. in_class Digit x"
    "h = g(''row'' \<mapsto> r, ''col'' \<mapsto> c, ''error'' \<mapsto> e)"
    apply (simp only: regex_norm alts_iffs in_class.simps)
    apply (elim exE conjE)
    apply hypsubst
    apply (simp only: in_class.simps [symmetric])
    apply blast
    done
  then show ?thesis
    by (rule_tac x = r in exI, rule_tac x = c in exI, rule_tac x = "sp @ m" in exI,
        rule_tac x = e in exI) (simp add: list_all_iff)
qed

lemma clang_tail_complete:
  assumes "r \<noteq> []" "list_all is_digit r" "c \<noteq> []" "list_all is_digit c"
    "list_all is_space sp" "CHR 0x0A \<notin> set m" "CHR 0x0A \<notin> set e"
  shows "(t, g(''row'' \<mapsto> r, ''col'' \<mapsto> c, ''error'' \<mapsto> e)) \<in>
     set (alts ([One (Lit CHR '':''), Named ''row'' (Plus Digit),
       One (Lit CHR '':''), Named ''col'' (Plus Digit),
       One (Lit CHR '':''), Star Space, Star Dot] @ lits ''error: '' @
      [Named ''error'' (Star Dot)])
      (CHR '':'' # r @ CHR '':'' # c @ CHR '':'' # sp @ m @ ''error: '' @ e @ t) g)"
  using assms
  apply (simp only: regex_norm list_all_iff)
  apply (intro alts_intros)
  apply (simp_all)
  apply blast+
  done

text \<open>The first alternative of a pattern that starts with a greedy group: the group
  takes the longest text that lets the rest of the pattern match.\<close>

lemma concat_star_first:
  assumes "concat (map F (star a s)) = x # xs"
  shows "\<exists>p u ys. s = p @ u \<and> (\<forall>c\<in>set p. in_class a c) \<and> F u = x # ys \<and>
           (\<forall>p' u'. s = p' @ u' \<and> (\<forall>c\<in>set p'. in_class a c) \<and> length p < length p'
              \<longrightarrow> F u' = [])"
  using assms
proof (induction s arbitrary: x xs)
  case Nil
  then have "F [] = x # xs" by simp
  then show ?case by auto
next
  case (Cons c s)
  note IH = Cons.IH and prems = Cons.prems
  show ?case
  proof (cases "in_class a c")
    case False
    with prems have "F (c # s) = x # xs" by simp
    moreover have "\<And>p' u'. c # s = p' @ u' \<Longrightarrow> (\<forall>d\<in>set p'. in_class a d) \<Longrightarrow> p' = []"
      using False by (auto simp: Cons_eq_append_conv)
    ultimately show ?thesis
      by (intro exI[of _ "[]"] exI[of _ "c # s"] exI[of _ xs]) auto
  next
    case True
    then have split: "concat (map F (star a s)) @ F (c # s) = x # xs"
      using prems by simp
    show ?thesis
    proof (cases "concat (map F (star a s))")
      case Nil
      note emp = this
      then have none: "\<And>u. u \<in> set (star a s) \<Longrightarrow> F u = []" by auto
      from split have here: "F (c # s) = x # xs" by (simp only: emp append_Nil)
      have "F u' = []" if "c # s = p' @ u'" "\<forall>d\<in>set p'. in_class a d" "0 < length p'" for p' u'
      proof -
        from that obtain q where "p' = c # q" "s = q @ u'"
          by (auto simp: Cons_eq_append_conv)
        with that have "u' \<in> set (star a s)" by (auto simp: set_star)
        then show ?thesis by (rule none)
      qed
      with here show ?thesis
        by (intro exI[of _ "[]"] exI[of _ "c # s"] exI[of _ xs]) auto
    next
      case (Cons y ys)
      note ne = this
      with split have "y = x" by simp
      with ne have "concat (map F (star a s)) = x # ys" by simp
      from IH [OF this] obtain p u zs where
        p: "s = p @ u" "\<forall>d\<in>set p. in_class a d" "F u = x # zs" and
        mx: "\<And>p' u'. s = p' @ u' \<Longrightarrow> \<forall>d\<in>set p'. in_class a d \<Longrightarrow> length p < length p'
              \<Longrightarrow> F u' = []"
        by blast
      have "F u' = []"
        if "c # s = p' @ u'" "\<forall>d\<in>set p'. in_class a d" "length (c # p) < length p'" for p' u'
      proof -
        from that obtain q where q: "p' = c # q" "s = q @ u'"
          by (cases p') auto
        with that have "\<forall>d\<in>set q. in_class a d" "length p < length q" by auto
        with q show ?thesis by (intro mx)
      qed
      with p True show ?thesis
        by (intro exI[of _ "c # p"] exI[of _ u] exI[of _ zs]) auto
    qed
  qed
qed

lemma alts_leading_group_first:
  assumes "alts (Named n (Star a) # r) s g = (t, h) # rest"
  shows "\<exists>p u ys. s = p @ u \<and> (\<forall>c\<in>set p. in_class a c) \<and>
           alts r u (g(n \<mapsto> p)) = (t, h) # ys \<and>
           (\<forall>p' u'. s = p' @ u' \<and> (\<forall>c\<in>set p'. in_class a c) \<and> length p < length p'
              \<longrightarrow> alts r u' (g(n \<mapsto> p')) = [])"
proof -
  let ?F = "\<lambda>u. alts r u (g(n \<mapsto> take (length s - length u) s))"
  have "alts (Named n (Star a) # r) s g = concat (map ?F (star a s))"
    by (simp add: comp_def)
  with assms have "concat (map ?F (star a s)) = (t, h) # rest" by simp
  from concat_star_first [OF this] obtain p u ys where
    p: "s = p @ u" "\<forall>c\<in>set p. in_class a c" "?F u = (t, h) # ys" and
    mx: "\<And>p' u'. s = p' @ u' \<Longrightarrow> \<forall>c\<in>set p'. in_class a c \<Longrightarrow> length p < length p'
              \<Longrightarrow> ?F u' = []"
    by blast
  have "alts r u' (g(n \<mapsto> p')) = []"
    if "s = p' @ u'" "\<forall>c\<in>set p'. in_class a c" "length p < length p'" for p' u'
    using mx [OF that] that(1) by simp
  moreover from p have "alts r u (g(n \<mapsto> p)) = (t, h) # ys" by simp
  ultimately show ?thesis using p by blast
qed

lemma match_at_Some:
  "match_at r s = Some h \<longleftrightarrow> (\<exists>t rest. alts r s Map.empty = (t, h) # rest)"
  by (auto simp: match_at_def split: list.splits)

lemma match_at_None: "match_at r s = None \<longleftrightarrow> alts r s Map.empty = []"
  by (auto simp: match_at_def split: list.splits)

lemma search_Some_suffix:
  "search r s = Some h \<Longrightarrow> \<exists>u. suffix u s \<and> match_at r u = Some h"
proof (induction s)
  case Nil
  then show ?case by auto
next
  case (Cons c s)
  show ?case
  proof (cases "match_at r (c # s)")
    case None
    with Cons.prems have "search r s = Some h" by simp
    from Cons.IH [OF this] show ?thesis by (auto simp: suffix_Cons)
  next
    case (Some k)
    with Cons.prems show ?thesis by auto
  qed
qed

lemma search_Some_alts:
  assumes "search r s = Some h"
  shows "\<exists>q u t. s = q @ u \<and> (t, h) \<in> set (alts r u Map.empty)"
proof -
  from search_Some_suffix [OF assms] obtain u where "suffix u s" "match_at r u = Some h"
    by blast
  then obtain q t rest where "s = q @ u" "alts r u Map.empty = (t, h) # rest"
    by (auto simp: suffix_def match_at_Some)
  then have "s = q @ u \<and> (t, h) \<in> set (alts r u Map.empty)" by simp
  then show ?thesis by blast
qed

section \<open>Properties of the lines and of the loops\<close>

lemma splitlines_from_break:
  "is_linebreak c \<Longrightarrow> splitlines_from cur (c # d # s') =
     cur # (if c = CHR 0x0D \<and> d = CHR 0x0A then splitlines_from [] s'
            else splitlines_from [] (d # s'))"
  by (simp only: splitlines_from.simps(2) [of cur c "d # s'"] list.case if_True)

lemma splitlines_from_no_linebreak:
  "l \<in> set (splitlines_from cur s) \<Longrightarrow> \<forall>c\<in>set cur. \<not> is_linebreak c \<Longrightarrow>
   \<forall>c\<in>set l. \<not> is_linebreak c"
proof (induction cur s rule: splitlines_from.induct)
  case (1 cur)
  then show ?case by (cases "cur = []") simp_all
next
  case (2 cur c s)
  note IH = "2.IH" and mem = "2.prems"(1) and cur = "2.prems"(2)
  show ?case
  proof (cases "is_linebreak c")
    case False
    then have "l \<in> set (splitlines_from (cur @ [c]) s)" using mem by simp
    moreover have "\<forall>x\<in>set (cur @ [c]). \<not> is_linebreak x" using cur False by simp
    ultimately show ?thesis using IH(3) [OF False] by blast
  next
    case True
    note lb = this
    show ?thesis
    proof (cases s)
      case Nil
      with mem lb have "l = cur" by simp
      with cur show ?thesis by simp
    next
      case (Cons d s')
      note s = this
      show ?thesis
      proof (cases "c = CHR 0x0D \<and> d = CHR 0x0A")
        case True
        from mem have "l \<in> set (splitlines_from cur (c # d # s'))"
          by (simp only: s)
        then have "l \<in> set (cur # (if c = CHR 0x0D \<and> d = CHR 0x0A then splitlines_from [] s'
            else splitlines_from [] (d # s')))"
          by (simp only: splitlines_from_break [OF lb])
        then have "l \<in> set (cur # splitlines_from [] s')"
          by (simp only: if_P [OF True])
        then have "l = cur \<or> l \<in> set (splitlines_from [] s')"
          by (simp only: list.set insert_iff)
        then show ?thesis
        proof
          assume "l = cur" with cur show ?thesis by simp
        next
          assume "l \<in> set (splitlines_from [] s')"
          then show ?thesis using IH(1) [OF lb s True] by simp
        qed
      next
        case False
        from mem have "l \<in> set (splitlines_from cur (c # d # s'))"
          by (simp only: s)
        then have "l \<in> set (cur # (if c = CHR 0x0D \<and> d = CHR 0x0A then splitlines_from [] s'
            else splitlines_from [] (d # s')))"
          by (simp only: splitlines_from_break [OF lb])
        then have "l \<in> set (cur # splitlines_from [] (d # s'))"
          by (simp only: if_not_P [OF False])
        then have "l = cur \<or> l \<in> set (splitlines_from [] s)"
          by (simp only: list.set insert_iff s)
        then show ?thesis
        proof
          assume "l = cur" with cur show ?thesis by simp
        next
          assume "l \<in> set (splitlines_from [] s)"
          then show ?thesis using IH(2) [OF lb s False] by simp
        qed
      qed
    qed
  qed
qed

lemma splitlines_no_linebreak:
  "l \<in> set (splitlines s) \<Longrightarrow> c \<in> set l \<Longrightarrow> \<not> is_linebreak c"
  using splitlines_from_no_linebreak [of l "[]" s] by (simp add: splitlines_def)

lemma splitlines_no_newline: "l \<in> set (splitlines s) \<Longrightarrow> CHR 0x0A \<notin> set l"
  using splitlines_no_linebreak [of l s "CHR 0x0A"] by (auto simp: is_linebreak_def)

lemma clang_loop_acc: "clang_loop re errors lines = errors @ clang_loop re [] lines"
proof (induction lines arbitrary: errors)
  case Nil
  show ?case by simp
next
  case (Cons l ls)
  show ?case
  proof (cases "search re l")
    case None
    then show ?thesis using Cons.IH [of errors] by simp
  next
    case (Some m)
    have "clang_loop re errors (l # ls) = clang_loop re (errors @ [groupdict re m]) ls"
      using Some by simp
    also have "\<dots> = (errors @ [groupdict re m]) @ clang_loop re [] ls"
      by (rule Cons.IH)
    finally have a: "clang_loop re errors (l # ls) = errors @ [groupdict re m] @ clang_loop re [] ls"
      by simp
    have "clang_loop re [] (l # ls) = clang_loop re [groupdict re m] ls"
      using Some by simp
    also have "\<dots> = [groupdict re m] @ clang_loop re [] ls"
      by (rule Cons.IH)
    finally show ?thesis using a by simp
  qed
qed

lemma clang_loop_Cons:
  "clang_loop re [] (l # ls) =
     (case search re l of None \<Rightarrow> [] | Some m \<Rightarrow> [groupdict re m]) @ clang_loop re [] ls"
  using clang_loop_acc [of re "[groupdict re m]" ls for m]
  by (simp split: option.splits)

lemma clang_loop_append:
  "clang_loop re [] (xs @ ys) = clang_loop re [] xs @ clang_loop re [] ys"
  by (induction xs) (simp_all only: append_Nil append_Cons clang_loop_Cons append_assoc clang_loop.simps(1))

lemma libclang_loop_acc: "libclang_loop errors ds = errors @ libclang_loop [] ds"
proof (induction ds arbitrary: errors)
  case Nil
  show ?case by simp
next
  case (Cons d ds)
  show ?case
  proof (cases "search pos_regex (location d)")
    case None
    then show ?thesis using Cons.IH [of errors] by simp
  next
    case (Some p)
    note pos = this
    show ?thesis
    proof (cases "search msg_regex (spelling d)")
      case None
      with pos show ?thesis using Cons.IH [of errors] by simp
    next
      case (Some m)
      let ?e = "groupdict pos_regex p ++ groupdict msg_regex m"
      have "libclang_loop errors (d # ds) = libclang_loop (errors @ [?e]) ds"
        using Some pos by simp
      also have "\<dots> = (errors @ [?e]) @ libclang_loop [] ds"
        by (rule Cons.IH)
      finally have a: "libclang_loop errors (d # ds) = errors @ [?e] @ libclang_loop [] ds"
        by simp
      have "libclang_loop [] (d # ds) = libclang_loop [?e] ds"
        using Some pos by simp
      also have "\<dots> = [?e] @ libclang_loop [] ds"
        by (rule Cons.IH)
      finally show ?thesis using a by simp
    qed
  qed
qed

lemma libclang_loop_Cons:
  "libclang_loop [] (d # ds) =
     (case search pos_regex (location d) of
        None \<Rightarrow> []
      | Some p \<Rightarrow>
          (case search msg_regex (spelling d) of
             None \<Rightarrow> []
           | Some m \<Rightarrow> [groupdict pos_regex p ++ groupdict msg_regex m])) @
     libclang_loop [] ds"
  using libclang_loop_acc [of "[groupdict pos_regex p ++ groupdict msg_regex m]" ds for p m]
  by (simp split: option.splits)

lemma libclang_loop_append:
  "libclang_loop [] (xs @ ys) = libclang_loop [] xs @ libclang_loop [] ys"
  by (induction xs)
    (simp_all only: append_Nil append_Cons libclang_loop_Cons append_assoc libclang_loop.simps(1))

section \<open>What the four patterns match\<close>

lemma clang_regex_sound:
  assumes "(t, h) \<in> set (alts ClangCompilerVariant_error_regex s g)"
  shows "\<exists>f r c m e. s = f @ CHR '':'' # r @ CHR '':'' # c @ CHR '':'' # m @ ''error: '' @ e @ t \<and>
      r \<noteq> [] \<and> list_all is_digit r \<and> c \<noteq> [] \<and> list_all is_digit c \<and>
      h = g(''file'' \<mapsto> f, ''row'' \<mapsto> r, ''col'' \<mapsto> c, ''error'' \<mapsto> e)"
proof -
  from assms obtain f u where f: "s = f @ u" and
    "(t, h) \<in> set (alts ([One (Lit CHR '':''), Named ''row'' (Plus Digit),
       One (Lit CHR '':''), Named ''col'' (Plus Digit),
       One (Lit CHR '':''), Star Space, Star Dot] @ lits ''error: '' @
      [Named ''error'' (Star Dot)]) u (g(''file'' \<mapsto> f)))"
    unfolding ClangCompilerVariant_error_regex_def append_Cons alts_Named_Star_iff by blast
  from clang_tail_sound [OF this(2)] obtain r c m e where
    "u = CHR '':'' # r @ CHR '':'' # c @ CHR '':'' # m @ ''error: '' @ e @ t"
    "r \<noteq> []" "list_all is_digit r" "c \<noteq> []" "list_all is_digit c"
    "h = g(''file'' \<mapsto> f, ''row'' \<mapsto> r, ''col'' \<mapsto> c, ''error'' \<mapsto> e)"
    by blast
  with f show ?thesis
    by (rule_tac x = f in exI, rule_tac x = r in exI, rule_tac x = c in exI,
        rule_tac x = m in exI, rule_tac x = e in exI) simp
qed

lemma clangcl_regex_sound:
  assumes "(t, h) \<in> set (alts ClangClCompilerVariant_error_regex s g)"
  shows "\<exists>f r c m e. s = f @ CHR ''('' # r @ CHR '','' # c @ CHR '')'' # m @ ''error: '' @ e @ t \<and>
      r \<noteq> [] \<and> list_all is_digit r \<and> c \<noteq> [] \<and> list_all is_digit c \<and>
      h = g(''file'' \<mapsto> f, ''row'' \<mapsto> r, ''col'' \<mapsto> c, ''error'' \<mapsto> e)"
proof -
  from assms obtain f r c sp sq m e where
    "s = f @ CHR ''('' # r @ CHR '','' # c @ CHR '')'' # sp @ CHR '':'' # sq @ m @ ''error: '' @ e @ t"
    "r \<noteq> []" "\<forall>x\<in>set r. in_class Digit x" "c \<noteq> []" "\<forall>x\<in>set c. in_class Digit x"
    "h = g(''file'' \<mapsto> f, ''row'' \<mapsto> r, ''col'' \<mapsto> c, ''error'' \<mapsto> e)"
    apply (simp only: ClangClCompilerVariant_error_regex_def regex_norm alts_iffs in_class.simps)
    apply (elim exE conjE)
    apply hypsubst
    apply (simp only: in_class.simps [symmetric])
    apply blast
    done
  then show ?thesis
    by (rule_tac x = f in exI, rule_tac x = r in exI, rule_tac x = c in exI,
        rule_tac x = "sp @ CHR '':'' # sq @ m" in exI, rule_tac x = e in exI)
       (simp add: list_all_iff)
qed

lemma pos_regex_sound:
  assumes "(t, h) \<in> set (alts pos_regex s g)"
  shows "\<exists>f m sp r sq c. s = CHR 0x27 # f @ CHR 0x27 # m @ ''line'' @ sp # r @ '', column'' @ sq # c @ t \<and>
      f \<noteq> [] \<and> is_space sp \<and> is_space sq \<and>
      r \<noteq> [] \<and> list_all is_digit r \<and> c \<noteq> [] \<and> list_all is_digit c \<and>
      h = g(''file'' \<mapsto> f, ''row'' \<mapsto> r, ''col'' \<mapsto> c)"
proof -
  from assms obtain f m sp r sq c where
    "s = CHR 0x27 # f @ CHR 0x27 # m @ ''line'' @ sp # r @ '', column'' @ sq # c @ t"
    "f \<noteq> []" "in_class Space sp" "in_class Space sq"
    "r \<noteq> []" "\<forall>x\<in>set r. in_class Digit x" "c \<noteq> []" "\<forall>x\<in>set c. in_class Digit x"
    "h = g(''file'' \<mapsto> f, ''row'' \<mapsto> r, ''col'' \<mapsto> c)"
    apply (simp only: pos_regex_def regex_norm alts_iffs in_class.simps(4))
    apply (elim exE conjE)
    apply hypsubst
    apply blast
    done
  then show ?thesis
    by (rule_tac x = f in exI, rule_tac x = m in exI, rule_tac x = sp in exI,
        rule_tac x = r in exI, rule_tac x = sq in exI, rule_tac x = c in exI)
       (simp add: list_all_iff)
qed

lemma msg_regex_sound:
  assumes "(t, h) \<in> set (alts msg_regex s g)"
  shows "\<exists>q e q'. s = q @ e @ q' @ t \<and> e \<noteq> [] \<and> CHR 0x0A \<notin> set e \<and>
      h = g(''error'' \<mapsto> e)"
proof -
  from assms obtain q e q' where
    "s = q @ e @ q' @ t" "e \<noteq> []" "\<forall>x\<in>set e. in_class Dot x" "h = g(''error'' \<mapsto> e)"
    apply (simp only: msg_regex_def regex_norm alts_iffs)
    apply (elim exE conjE)
    apply hypsubst
    apply blast
    done
  then show ?thesis
    by (rule_tac x = q in exI, rule_tac x = e in exI, rule_tac x = q' in exI) auto
qed


lemma group_names_lits: "concat (map group_names_item (lits w)) = []"
  by (induction w) (simp_all add: lits_def)

lemma group_names_clang:
  "group_names ClangCompilerVariant_error_regex = [''file'', ''row'', ''col'', ''error'']"
  by (simp add: group_names_def ClangCompilerVariant_error_regex_def group_names_lits)

lemma group_names_clangcl:
  "group_names ClangClCompilerVariant_error_regex = [''file'', ''row'', ''col'', ''error'']"
  by (simp add: group_names_def ClangClCompilerVariant_error_regex_def group_names_lits)

lemma group_names_pos: "group_names pos_regex = [''file'', ''row'', ''col'']"
  by (simp add: group_names_def pos_regex_def group_names_lits)

lemma group_names_msg: "group_names msg_regex = [''error'']"
  by (simp add: group_names_def msg_regex_def)

lemma groupdict_four:
  assumes "group_names re = [''file'', ''row'', ''col'', ''error'']"
  shows "groupdict re [''file'' \<mapsto> f, ''row'' \<mapsto> r, ''col'' \<mapsto> c, ''error'' \<mapsto> e] =
     [''file'' \<mapsto> StrVal f, ''row'' \<mapsto> StrVal r, ''col'' \<mapsto> StrVal c, ''error'' \<mapsto> StrVal e]"
  by (rule ext) (simp add: groupdict_def assms)

lemma groupdict_pos_msg:
  assumes "group_names re = [''file'', ''row'', ''col'']" and "group_names re' = [''error'']"
  shows "groupdict re [''file'' \<mapsto> f, ''row'' \<mapsto> r, ''col'' \<mapsto> c] ++
     groupdict re' [''error'' \<mapsto> e] =
   [''file'' \<mapsto> StrVal f, ''row'' \<mapsto> StrVal r, ''col'' \<mapsto> StrVal c, ''error'' \<mapsto> StrVal e]"
  by (rule ext) (simp add: groupdict_def assms map_add_def)

lemma dom_error_dict:
  "dom [''file'' \<mapsto> StrVal f, ''row'' \<mapsto> StrVal r, ''col'' \<mapsto> StrVal c, ''error'' \<mapsto> StrVal e] =
     {''file'', ''row'', ''col'', ''error''}"
  by auto

lemma in_clang_loop:
  "d \<in> set (clang_loop re [] ls) \<Longrightarrow> \<exists>l m. l \<in> set ls \<and> search re l = Some m \<and> d = groupdict re m"
proof (induction ls)
  case Nil
  then show ?case by simp
next
  case (Cons l ls)
  show ?case
  proof (cases "search re l")
    case None
    with Cons.prems have "d \<in> set (clang_loop re [] ls)"
      by (simp add: clang_loop_Cons del: clang_loop.simps)
    with Cons.IH show ?thesis by auto
  next
    case (Some m)
    with Cons.prems have "d = groupdict re m \<or> d \<in> set (clang_loop re [] ls)"
      by (simp add: clang_loop_Cons del: clang_loop.simps)
    with Cons.IH Some show ?thesis by auto
  qed
qed

lemma in_libclang_loop:
  "d \<in> set (libclang_loop [] ds) \<Longrightarrow>
   \<exists>x p m. x \<in> set ds \<and> search pos_regex (location x) = Some p \<and>
     search msg_regex (spelling x) = Some m \<and> d = groupdict pos_regex p ++ groupdict msg_regex m"
proof (induction ds)
  case Nil
  then show ?case by simp
next
  case (Cons x ds)
  show ?case
  proof (cases "search pos_regex (location x)")
    case None
    with Cons.prems have "d \<in> set (libclang_loop [] ds)"
      by (simp add: libclang_loop_Cons del: libclang_loop.simps)
    with Cons.IH show ?thesis by auto
  next
    case (Some p)
    note pos = this
    show ?thesis
    proof (cases "search msg_regex (spelling x)")
      case None
      with pos Cons.prems have "d \<in> set (libclang_loop [] ds)"
        by (simp add: libclang_loop_Cons del: libclang_loop.simps)
      with Cons.IH show ?thesis by auto
    next
      case (Some m)
      with pos Cons.prems have
        "d = groupdict pos_regex p ++ groupdict msg_regex m \<or> d \<in> set (libclang_loop [] ds)"
        by (simp add: libclang_loop_Cons del: libclang_loop.simps)
      with Cons.IH Some pos show ?thesis by auto
    qed
  qed
qed

lemma clang_search_dict:
  assumes "search ClangCompilerVariant_error_regex l = Some m"
  shows "\<exists>f r c e. groupdict ClangCompilerVariant_error_regex m =
      [''file'' \<mapsto> StrVal f, ''row'' \<mapsto> StrVal r, ''col'' \<mapsto> StrVal c, ''error'' \<mapsto> StrVal e] \<and>
      r \<noteq> [] \<and> list_all is_digit r \<and> c \<noteq> [] \<and> list_all is_digit c"
proof -
  from search_Some_alts [OF assms] obtain q u t where
    "(t, m) \<in> set (alts ClangCompilerVariant_error_regex u Map.empty)" by blast
  from clang_regex_sound [OF this] obtain f r c e where
    "r \<noteq> []" "list_all is_digit r" "c \<noteq> []" "list_all is_digit c"
    "m = [''file'' \<mapsto> f, ''row'' \<mapsto> r, ''col'' \<mapsto> c, ''error'' \<mapsto> e]" by blast
  then show ?thesis
    using groupdict_four [OF group_names_clang, of f r c e] by blast
qed

lemma clangcl_search_dict:
  assumes "search ClangClCompilerVariant_error_regex l = Some m"
  shows "\<exists>f r c e. groupdict ClangClCompilerVariant_error_regex m =
      [''file'' \<mapsto> StrVal f, ''row'' \<mapsto> StrVal r, ''col'' \<mapsto> StrVal c, ''error'' \<mapsto> StrVal e] \<and>
      r \<noteq> [] \<and> list_all is_digit r \<and> c \<noteq> [] \<and> list_all is_digit c"
proof -
  from search_Some_alts [OF assms] obtain q u t where
    "(t, m) \<in> set (alts ClangClCompilerVariant_error_regex u Map.empty)" by blast
  from clangcl_regex_sound [OF this] obtain f r c e where
    "r \<noteq> []" "list_all is_digit r" "c \<noteq> []" "list_all is_digit c"
    "m = [''file'' \<mapsto> f, ''row'' \<mapsto> r, ''col'' \<mapsto> c, ''error'' \<mapsto> e]" by blast
  then show ?thesis
    using groupdict_four [OF group_names_clangcl, of f r c e] by blast
qed

lemma libclang_search_dict:
  assumes "search pos_regex loc = Some p" and "search msg_regex sp = Some m"
  shows "\<exists>f r c e. groupdict pos_regex p ++ groupdict msg_regex m =
      [''file'' \<mapsto> StrVal f, ''row'' \<mapsto> StrVal r, ''col'' \<mapsto> StrVal c, ''error'' \<mapsto> StrVal e] \<and>
      r \<noteq> [] \<and> list_all is_digit r \<and> c \<noteq> [] \<and> list_all is_digit c"
proof -
  from search_Some_alts [OF assms(1)] obtain q u t where
    "(t, p) \<in> set (alts pos_regex u Map.empty)" by blast
  from pos_regex_sound [OF this] obtain f r c where
    "r \<noteq> []" "list_all is_digit r" "c \<noteq> []" "list_all is_digit c"
    "p = [''file'' \<mapsto> f, ''row'' \<mapsto> r, ''col'' \<mapsto> c]" by blast
  moreover from search_Some_alts [OF assms(2)] obtain q' u' t' where
    "(t', m) \<in> set (alts msg_regex u' Map.empty)" by blast
  from msg_regex_sound [OF this] obtain e where "m = [''error'' \<mapsto> e]" by blast
  ultimately show ?thesis
    using groupdict_pos_msg [OF group_names_pos group_names_msg, of f r c e] by blast
qed

lemma errors_from_output_dict:
  assumes "errors_from_output v outp = Inr errs" and "d \<in> set errs"
  shows "\<exists>f r c e. d =
      [''file'' \<mapsto> StrVal f, ''row'' \<mapsto> StrVal r, ''col'' \<mapsto> StrVal c, ''error'' \<mapsto> StrVal e] \<and>
      r \<noteq> [] \<and> list_all is_digit r \<and> c \<noteq> [] \<and> list_all is_digit c"
proof (cases v)
  case CompilerVariant
  with assms show ?thesis by simp
next
  case ClangCompilerVariant
  with assms obtain s where "d \<in> set (clang_loop ClangCompilerVariant_error_regex [] (splitlines s))"
    by (cases outp) auto
  from in_clang_loop [OF this] clang_search_dict show ?thesis by metis
next
  case ClangClCompilerVariant
  with assms obtain s where "d \<in> set (clang_loop ClangClCompilerVariant_error_regex [] (splitlines s))"
    by (cases outp) auto
  from in_clang_loop [OF this] clangcl_search_dict show ?thesis by metis
next
  case LibClangCompilerVariant
  with assms obtain ds where "d \<in> set (libclang_loop [] ds)"
    by (cases outp) (auto split: if_splits)
  from in_libclang_loop [OF this] libclang_search_dict show ?thesis by metis
qed

section \<open>The clang pattern takes the longest file\<close>

lemma clang_regex_unfold:
  "ClangCompilerVariant_error_regex = Named ''file'' (Star Dot) # clang_tail"
  by (simp add: ClangCompilerVariant_error_regex_def)

lemma in_set_not_Nil: "x \<in> set xs \<Longrightarrow> xs \<noteq> []"
  by auto

lemma not_Nil_in_set: "xs \<noteq> [] \<Longrightarrow> \<exists>a b. (a, b) \<in> set xs"
  by (cases xs) auto

lemma clang_tail_exists:
  assumes "r \<noteq> []" "list_all is_digit r" "c \<noteq> []" "list_all is_digit c"
    "CHR 0x0A \<notin> set m" "CHR 0x0A \<notin> set e"
  shows "alts clang_tail (CHR '':'' # r @ CHR '':'' # c @ CHR '':'' # m @ ''error: '' @ e) g \<noteq> []"
proof -
  have "([], g(''row'' \<mapsto> r, ''col'' \<mapsto> c, ''error'' \<mapsto> e)) \<in> set (alts clang_tail
      (CHR '':'' # r @ CHR '':'' # c @ CHR '':'' # [] @ m @ ''error: '' @ e @ []) g)"
    using assms by (intro clang_tail_complete) simp_all
  then have "([], g(''row'' \<mapsto> r, ''col'' \<mapsto> c, ''error'' \<mapsto> e)) \<in> set (alts clang_tail
      (CHR '':'' # r @ CHR '':'' # c @ CHR '':'' # m @ ''error: '' @ e) g)"
    by (simp only: append_Nil append_Nil2)
  then show ?thesis by (rule in_set_not_Nil)
qed

lemma clang_match_at_longest:
  assumes "match_at ClangCompilerVariant_error_regex l = Some h" and nl: "CHR 0x0A \<notin> set l"
  shows "\<exists>f r c m e t.
      l = f @ CHR '':'' # r @ CHR '':'' # c @ CHR '':'' # m @ ''error: '' @ e @ t \<and>
      r \<noteq> [] \<and> list_all is_digit r \<and> c \<noteq> [] \<and> list_all is_digit c \<and>
      h = [''file'' \<mapsto> f, ''row'' \<mapsto> r, ''col'' \<mapsto> c, ''error'' \<mapsto> e] \<and>
      (\<forall>f' r' c' w'.
         l = f' @ CHR '':'' # r' @ CHR '':'' # c' @ CHR '':'' # w' \<and>
         r' \<noteq> [] \<and> list_all is_digit r' \<and> c' \<noteq> [] \<and> list_all is_digit c' \<and>
         sublist ''error: '' w' \<longrightarrow> length f' \<le> length f)"
proof -
  from assms(1) obtain t rest where
    "alts (Named ''file'' (Star Dot) # clang_tail) l Map.empty = (t, h) # rest"
    by (auto simp: match_at_Some clang_regex_unfold)
  from alts_leading_group_first [OF this] obtain f u ys where
    l: "l = f @ u" and first: "alts clang_tail u [''file'' \<mapsto> f] = (t, h) # ys" and
    mx: "\<And>f' u'. l = f' @ u' \<Longrightarrow> \<forall>x\<in>set f'. in_class Dot x \<Longrightarrow> length f < length f' \<Longrightarrow>
           alts clang_tail u' [''file'' \<mapsto> f'] = []"
    by blast
  from first have "(t, h) \<in> set (alts clang_tail u [''file'' \<mapsto> f])" by simp
  from clang_tail_sound [OF this] obtain r c m e where
    u: "u = CHR '':'' # r @ CHR '':'' # c @ CHR '':'' # m @ ''error: '' @ e @ t" and
    d: "r \<noteq> []" "list_all is_digit r" "c \<noteq> []" "list_all is_digit c" and
    h: "h = [''file'' \<mapsto> f, ''row'' \<mapsto> r, ''col'' \<mapsto> c, ''error'' \<mapsto> e]"
    by blast
  have "length f' \<le> length f"
    if l': "l = f' @ CHR '':'' # r' @ CHR '':'' # c' @ CHR '':'' # w'" and
      d': "r' \<noteq> []" "list_all is_digit r'" "c' \<noteq> []" "list_all is_digit c'" and
      w': "sublist ''error: '' w'" for f' r' c' w'
  proof (rule ccontr)
    assume "\<not> length f' \<le> length f"
    then have longer: "length f < length f'" by simp
    from w' obtain m' e' where w'': "w' = m' @ ''error: '' @ e'"
      by (auto simp: sublist_def)
    from nl l' have "\<forall>x\<in>set f'. in_class Dot x" by auto
    from mx [OF l' this longer]
    have "alts clang_tail (CHR '':'' # r' @ CHR '':'' # c' @ CHR '':'' # w') [''file'' \<mapsto> f'] = []" .
    moreover from nl l' w'' have nn: "CHR 0x0A \<notin> set m'" "CHR 0x0A \<notin> set e'" by auto
    have "alts clang_tail (CHR '':'' # r' @ CHR '':'' # c' @ CHR '':'' # w') [''file'' \<mapsto> f'] \<noteq> []"
      unfolding w'' by (rule clang_tail_exists [OF d' nn])
    ultimately show False by (rule_tac notE)
  qed
  with l u d h show ?thesis
    by (rule_tac x = f in exI, rule_tac x = r in exI, rule_tac x = c in exI,
        rule_tac x = m in exI, rule_tac x = e in exI, rule_tac x = t in exI) blast
qed

lemma clang_search_is_match_at:
  assumes "search ClangCompilerVariant_error_regex l = Some h" and nl: "CHR 0x0A \<notin> set l"
  shows "match_at ClangCompilerVariant_error_regex l = Some h"
proof -
  from search_Some_alts [OF assms(1)] obtain q u t where
    l: "l = q @ u" and "(t, h) \<in> set (alts ClangCompilerVariant_error_regex u Map.empty)"
    by blast
  from clang_regex_sound [OF this(2)] obtain f r c m e where
    u: "u = f @ CHR '':'' # r @ CHR '':'' # c @ CHR '':'' # m @ ''error: '' @ e @ t" and
    d: "r \<noteq> []" "list_all is_digit r" "c \<noteq> []" "list_all is_digit c"
    by blast
  from nl l u have nn: "CHR 0x0A \<notin> set m" "CHR 0x0A \<notin> set (e @ t)" by auto
  from not_Nil_in_set [OF clang_tail_exists [OF d nn, of "[''file'' \<mapsto> q @ f]"]] obtain t' h' where
    x: "(t', h') \<in> set (alts clang_tail (CHR '':'' # r @ CHR '':'' # c @ CHR '':'' # m @ ''error: '' @ e @ t)
       [''file'' \<mapsto> q @ f])"
    by blast
  from nl l u have dots: "\<forall>x\<in>set (q @ f). in_class Dot x" by auto
  have "(t', h') \<in> set (alts (Named ''file'' (Star Dot) # clang_tail)
      ((q @ f) @ CHR '':'' # r @ CHR '':'' # c @ CHR '':'' # m @ ''error: '' @ e @ t) Map.empty)"
    using dots x by (rule alts_Named_Star_I)
  then have "alts (Named ''file'' (Star Dot) # clang_tail)
      ((q @ f) @ CHR '':'' # r @ CHR '':'' # c @ CHR '':'' # m @ ''error: '' @ e @ t) Map.empty \<noteq> []"
    by (rule in_set_not_Nil)
  with l u have "alts ClangCompilerVariant_error_regex l Map.empty \<noteq> []"
    by (simp only: clang_regex_unfold append_assoc simp_thms)
  then obtain k where "match_at ClangCompilerVariant_error_regex l = Some k"
    by (cases "match_at ClangCompilerVariant_error_regex l") (auto simp: match_at_None)
  with assms(1) show ?thesis by (cases l) auto
qed

section \<open>Tokens a match needs, and the positions of the records\<close>

lemma clang_no_error_token:
  assumes "\<not> sublist ''error:'' l"
  shows "search ClangCompilerVariant_error_regex l = None"
proof (cases "search ClangCompilerVariant_error_regex l")
  case None
  then show ?thesis .
next
  case (Some m)
  from search_Some_alts [OF this] obtain q u t where
    l: "l = q @ u" and "(t, m) \<in> set (alts ClangCompilerVariant_error_regex u Map.empty)"
    by blast
  from clang_regex_sound [OF this(2)] obtain f r c w e where
    "u = f @ CHR '':'' # r @ CHR '':'' # c @ CHR '':'' # w @ ''error: '' @ e @ t"
    by blast
  with l have "l = (q @ f @ CHR '':'' # r @ CHR '':'' # c @ CHR '':'' # w) @ ''error:'' @ (CHR '' '' # e @ t)"
    by simp
  then have "sublist ''error:'' l"
    unfolding sublist_def by blast
  with assms show ?thesis by contradiction
qed

lemma pos_regex_tokens:
  assumes "search pos_regex loc = Some p"
  shows "sublist ''line'' loc \<and> sublist ''column'' loc"
proof -
  from search_Some_alts [OF assms] obtain q u t where
    l: "loc = q @ u" and "(t, p) \<in> set (alts pos_regex u Map.empty)"
    by blast
  from pos_regex_sound [OF this(2)] obtain f m sp r sq c where
    "u = CHR 0x27 # f @ CHR 0x27 # m @ ''line'' @ sp # r @ '', column'' @ sq # c @ t"
    by blast
  with l have
    "loc = (q @ CHR 0x27 # f @ CHR 0x27 # m) @ ''line'' @ (sp # r @ '', column'' @ sq # c @ t)"
    "loc = (q @ CHR 0x27 # f @ CHR 0x27 # m @ ''line'' @ sp # r @ '', '') @ ''column'' @ (sq # c @ t)"
    by simp_all
  then show ?thesis
    unfolding sublist_def by blast
qed

lemma clang_loop_positions:
  "clang_loop re [] ls =
     map (\<lambda>p. groupdict re (the (search re (ls ! p))))
       (filter (\<lambda>p. search re (ls ! p) \<noteq> None) [0..<length ls])"
proof (induction ls rule: rev_induct)
  case Nil
  show ?case by simp
next
  case (snoc l ls)
  have old: "filter (\<lambda>p. search re ((ls @ [l]) ! p) \<noteq> None) [0..<length ls] =
      filter (\<lambda>p. search re (ls ! p) \<noteq> None) [0..<length ls]"
    by (rule filter_cong) (simp_all add: nth_append)
  have "map (\<lambda>p. groupdict re (the (search re ((ls @ [l]) ! p))))
      (filter (\<lambda>p. search re (ls ! p) \<noteq> None) [0..<length ls]) =
      map (\<lambda>p. groupdict re (the (search re (ls ! p))))
      (filter (\<lambda>p. search re (ls ! p) \<noteq> None) [0..<length ls])"
    by (rule map_cong) (simp_all add: nth_append)
  with old snoc.IH have first:
    "map (\<lambda>p. groupdict re (the (search re ((ls @ [l]) ! p))))
      (filter (\<lambda>p. search re ((ls @ [l]) ! p) \<noteq> None) [0..<length ls]) = clang_loop re [] ls"
    by simp
  have last: "clang_loop re [] [l] =
      map (\<lambda>p. groupdict re (the (search re ((ls @ [l]) ! p))))
        (filter (\<lambda>p. search re ((ls @ [l]) ! p) \<noteq> None) [length ls])"
    by (cases "search re l") simp_all
  have "clang_loop re [] (ls @ [l]) = clang_loop re [] ls @ clang_loop re [] [l]"
    by (rule clang_loop_append)
  with first last show ?case by simp
qed

lemma libclang_loop_positions:
  "libclang_loop [] ds =
     map (\<lambda>p. groupdict pos_regex (the (search pos_regex (location (ds ! p)))) ++
               groupdict msg_regex (the (search msg_regex (spelling (ds ! p)))))
       (filter (\<lambda>p. search pos_regex (location (ds ! p)) \<noteq> None \<and>
                     search msg_regex (spelling (ds ! p)) \<noteq> None) [0..<length ds])"
proof (induction ds rule: rev_induct)
  case Nil
  show ?case by simp
next
  case (snoc d ds)
  let ?ok = "\<lambda>xs p. search pos_regex (location (xs ! p)) \<noteq> None \<and>
                     search msg_regex (spelling (xs ! p)) \<noteq> None"
  let ?rec = "\<lambda>xs p. groupdict pos_regex (the (search pos_regex (location (xs ! p)))) ++
               groupdict msg_regex (the (search msg_regex (spelling (xs ! p))))"
  have old: "filter (?ok (ds @ [d])) [0..<length ds] = filter (?ok ds) [0..<length ds]"
    by (rule filter_cong) (simp_all add: nth_append)
  have "map (?rec (ds @ [d])) (filter (?ok ds) [0..<length ds]) =
      map (?rec ds) (filter (?ok ds) [0..<length ds])"
    by (rule map_cong) (simp_all add: nth_append)
  with old snoc.IH have first:
    "map (?rec (ds @ [d])) (filter (?ok (ds @ [d])) [0..<length ds]) = libclang_loop [] ds"
    by simp
  have last: "libclang_loop [] [d] = map (?rec (ds @ [d])) (filter (?ok (ds @ [d])) [length ds])"
    by (cases "search pos_regex (location d)"; cases "search msg_regex (spelling d)") simp_all
  have "libclang_loop [] (ds @ [d]) = libclang_loop [] ds @ libclang_loop [] [d]"
    by (rule libclang_loop_append)
  with first last show ?case by simp
qed

lemma clang_loop_member:
  assumes "l \<in> set ls" and "search re l = Some m"
  shows "groupdict re m \<in> set (clang_loop re [] ls)"
proof -
  from assms(1) obtain xs ys where "ls = xs @ l # ys"
    by (auto simp: in_set_conv_decomp)
  then have "clang_loop re [] ls = clang_loop re [] xs @ [groupdict re m] @ clang_loop re [] ys"
    using assms(2) by (simp add: clang_loop_append clang_loop_Cons del: clang_loop.simps)
  then show ?thesis by simp
qed

lemma length_libclang_loop: "length (libclang_loop [] ds) \<le> length ds"
proof (induction ds)
  case Nil
  show ?case by simp
next
  case (Cons d ds)
  have "length (libclang_loop [] (d # ds)) \<le> Suc (length (libclang_loop [] ds))"
    by (simp only: libclang_loop_Cons) (simp split: option.splits)
  with Cons.IH show ?case by simp
qed

lemma libclang_loop_skip:
  assumes "search pos_regex (location d) = None \<or> search msg_regex (spelling d) = None"
  shows "libclang_loop [] (ds1 @ d # ds2) = libclang_loop [] (ds1 @ ds2)"
proof -
  from assms have "libclang_loop [] (d # ds2) = libclang_loop [] ds2"
    by (cases "search pos_regex (location d)") (auto simp add: libclang_loop_Cons simp del: libclang_loop.simps)
  then show ?thesis by (simp only: libclang_loop_append [of ds1])
qed

lemma clang_line_records:
  assumes "splitlines s = before @ l # after"
  shows "errors_from_output ClangCompilerVariant (Text s) =
     Inr (clang_loop ClangCompilerVariant_error_regex [] before @
          (case search ClangCompilerVariant_error_regex l of
             None \<Rightarrow> []
           | Some m \<Rightarrow> [groupdict ClangCompilerVariant_error_regex m]) @
          clang_loop ClangCompilerVariant_error_regex [] after)"
  by (simp add: assms clang_loop_append clang_loop_Cons del: clang_loop.simps)

lemma clangcl_line_records:
  assumes "splitlines s = before @ l # after"
  shows "errors_from_output ClangClCompilerVariant (Text s) =
     Inr (clang_loop ClangClCompilerVariant_error_regex [] before @
          (case search ClangClCompilerVariant_error_regex l of
             None \<Rightarrow> []
           | Some m \<Rightarrow> [groupdict ClangClCompilerVariant_error_regex m]) @
          clang_loop ClangClCompilerVariant_error_regex [] after)"
  by (simp add: assms clang_loop_append clang_loop_Cons del: clang_loop.simps)

section \<open>The patterns on the sample texts\<close>

lemmas eval_simps = match_at_def lits_def is_digit_def is_space_def is_linebreak_def
  splitlines_def ClangCompilerVariant_error_regex_def ClangClCompilerVariant_error_regex_def
  pos_regex_def msg_regex_def

lemma search_clang_example:
  "search ClangCompilerVariant_error_regex (''foo.cpp:12:5: error: expected ';'' @ [CHR 0x27]) =
     Some [''file'' \<mapsto> ''foo.cpp'', ''row'' \<mapsto> ''12'', ''col'' \<mapsto> ''5'',
           ''error'' \<mapsto> ''expected ';'' @ [CHR 0x27]]"
  by (simp add: eval_simps)

lemma search_clang_two_triples:
  "search ClangCompilerVariant_error_regex ''a.cpp:1:2: b.cpp:3:4: error: msg'' =
     Some [''file'' \<mapsto> ''a.cpp:1:2: b.cpp'', ''row'' \<mapsto> ''3'', ''col'' \<mapsto> ''4'',
           ''error'' \<mapsto> ''msg'']"
  by (simp add: eval_simps)

lemma search_clangcl_example:
  "search ClangClCompilerVariant_error_regex ''foo.cpp(12,5): error: missing return'' =
     Some [''file'' \<mapsto> ''foo.cpp'', ''row'' \<mapsto> ''12'', ''col'' \<mapsto> ''5'',
           ''error'' \<mapsto> ''missing return'']"
  by (simp add: eval_simps)

lemmas run_simps = eval_simps group_names_def groupdict_four groupdict_pos_msg

lemma clang_example_output:
  "errors_from_output ClangCompilerVariant (Text (''foo.cpp:12:5: error: expected ';'' @ [CHR 0x27])) =
     Inr [[''file'' \<mapsto> StrVal ''foo.cpp'', ''row'' \<mapsto> StrVal ''12'', ''col'' \<mapsto> StrVal ''5'',
           ''error'' \<mapsto> StrVal (''expected ';'' @ [CHR 0x27])]]"
  by (simp add: run_simps)

lemma clangcl_example_output:
  "errors_from_output ClangClCompilerVariant (Text ''foo.cpp(12,5): error: missing return'') =
     Inr [[''file'' \<mapsto> StrVal ''foo.cpp'', ''row'' \<mapsto> StrVal ''12'', ''col'' \<mapsto> StrVal ''5'',
           ''error'' \<mapsto> StrVal ''missing return'']]"
  by (simp add: run_simps)

lemma libclang_example_output:
  "errors_from_output LibClangCompilerVariant
     (Diagnostics [\<lparr>location = '''foo.cpp', line 7, column 3'', spelling = ''expected expression''\<rparr>]) =
     Inr [[''file'' \<mapsto> StrVal ''foo.cpp'', ''row'' \<mapsto> StrVal ''7'', ''col'' \<mapsto> StrVal ''3'',
           ''error'' \<mapsto> StrVal ''expected expression'']]"
  by (simp add: run_simps)

lemma libclang_quoted_output:
  "errors_from_output LibClangCompilerVariant
     (Diagnostics [\<lparr>location = '''foo.cpp', line 7, column 3'',
                    spelling = CHR 0x22 # ''expected expression'' @ [CHR 0x22]\<rparr>]) =
     Inr [[''file'' \<mapsto> StrVal ''foo.cpp'', ''row'' \<mapsto> StrVal ''7'', ''col'' \<mapsto> StrVal ''3'',
           ''error'' \<mapsto> StrVal (''expected expression'' @ [CHR 0x22])]]"
  by (simp add: run_simps)

section \<open>The abstract parser and the flags\<close>

text \<open>
  C10. The method of the base class \<^verbatim>\<open>CompilerVariant\<close> raises \<^verbatim>\<open>NotImplementedError\<close> for
  every input, the empty text and the empty list of diagnostics included; it never
  returns a list.
\<close>

theorem base_errors_from_output_not_implemented:
  "errors_from_output CompilerVariant outp = Inl NotImplementedError \<and>
   errors_from_output CompilerVariant (Text []) = Inl NotImplementedError \<and>
   errors_from_output CompilerVariant (Diagnostics []) = Inl NotImplementedError \<and>
   (\<nexists>errs. errors_from_output CompilerVariant outp = Inr errs)"
  by simp

text \<open>
  C7. The flags of the clang-cl variant do not contain \<^verbatim>\<open>-x c++\<close>, those of the clang
  variant do; both contain \<^verbatim>\<open>-c\<close> and \<^verbatim>\<open>-fsyntax-only\<close>.
\<close>

theorem init_flags_language_flag:
  "(\<exists>cl. init_flags ClangClCompilerVariant = Some cl \<and> ''-x c++'' \<notin> set cl \<and>
         ''-c'' \<in> set cl \<and> ''-fsyntax-only'' \<in> set cl) \<and>
   (\<exists>fl. init_flags ClangCompilerVariant = Some fl \<and> ''-x c++'' \<in> set fl \<and>
         ''-c'' \<in> set fl \<and> ''-fsyntax-only'' \<in> set fl)"
  by simp

section \<open>The concrete parsers always return\<close>

text \<open>
  C3. On a text the clang and the clang-cl parser, and on a list of diagnostics the
  libclang parser, return a list of error dictionaries, whatever the text or the
  diagnostics contain; none of them raises.
\<close>

theorem concrete_errors_from_output_total:
  "(\<exists>errs. errors_from_output ClangCompilerVariant (Text s) = Inr errs) \<and>
   (\<exists>errs. errors_from_output ClangClCompilerVariant (Text s) = Inr errs) \<and>
   (\<exists>errs. errors_from_output LibClangCompilerVariant (Diagnostics ds) = Inr errs)"
  by simp

section \<open>The file field of the clang parser\<close>

text \<open>
  C1, as stated, fails: on the line \<^verbatim>\<open>a.cpp:1:2: b.cpp:3:4: error: msg\<close> the specification expects
  the file \<^verbatim>\<open>a.cpp\<close>, the row 1 and the column 2, that is the text before the first
  \<^verbatim>\<open>:row:col\<close> triple. The group \<^verbatim>\<open>file\<close> is greedy, so the parser gives the text
  before the last triple.
\<close>

theorem clang_two_triples_counterexample:
  "errors_from_output ClangCompilerVariant (Text ''a.cpp:1:2: b.cpp:3:4: error: msg'') =
     Inr [[''file'' \<mapsto> StrVal ''a.cpp:1:2: b.cpp'', ''row'' \<mapsto> StrVal ''3'',
           ''col'' \<mapsto> StrVal ''4'', ''error'' \<mapsto> StrVal ''msg'']]"
  by (simp add: run_simps)

text \<open>
  C1, amended: for every line of the output that the clang pattern matches, the record
  of the line is in the result, and its file field is the longest beginning of the line
  that is followed by a triple \<^verbatim>\<open>:row:col:\<close> of two runs of digits and, later in the line,
  by the text \<^verbatim>\<open>error: \<close>; the fields row and col are the two runs of digits of that
  triple. No longer beginning of the line is followed in this way.
\<close>

theorem clang_file_longest_prefix:
  assumes "l \<in> set (splitlines s)" and "search ClangCompilerVariant_error_regex l = Some m"
  shows "\<exists>f r c w.
      l = f @ CHR '':'' # r @ CHR '':'' # c @ CHR '':'' # w \<and>
      r \<noteq> [] \<and> list_all is_digit r \<and> c \<noteq> [] \<and> list_all is_digit c \<and>
      sublist ''error: '' w \<and>
      groupdict ClangCompilerVariant_error_regex m ''file'' = Some (StrVal f) \<and>
      groupdict ClangCompilerVariant_error_regex m ''row'' = Some (StrVal r) \<and>
      groupdict ClangCompilerVariant_error_regex m ''col'' = Some (StrVal c) \<and>
      (\<exists>errs. errors_from_output ClangCompilerVariant (Text s) = Inr errs \<and>
         groupdict ClangCompilerVariant_error_regex m \<in> set errs) \<and>
      (\<forall>f' r' c' w'.
         l = f' @ CHR '':'' # r' @ CHR '':'' # c' @ CHR '':'' # w' \<and>
         r' \<noteq> [] \<and> list_all is_digit r' \<and> c' \<noteq> [] \<and> list_all is_digit c' \<and>
         sublist ''error: '' w' \<longrightarrow> length f' \<le> length f)"
proof -
  from assms(1) have nl: "CHR 0x0A \<notin> set l" by (rule splitlines_no_newline)
  from assms(2) nl have "match_at ClangCompilerVariant_error_regex l = Some m"
    by (rule clang_search_is_match_at)
  from clang_match_at_longest [OF this nl] obtain f r c w e t where
    l: "l = f @ CHR '':'' # r @ CHR '':'' # c @ CHR '':'' # w @ ''error: '' @ e @ t" and
    d: "r \<noteq> []" "list_all is_digit r" "c \<noteq> []" "list_all is_digit c" and
    m: "m = [''file'' \<mapsto> f, ''row'' \<mapsto> r, ''col'' \<mapsto> c, ''error'' \<mapsto> e]" and
    mx: "\<forall>f' r' c' w'.
         l = f' @ CHR '':'' # r' @ CHR '':'' # c' @ CHR '':'' # w' \<and>
         r' \<noteq> [] \<and> list_all is_digit r' \<and> c' \<noteq> [] \<and> list_all is_digit c' \<and>
         sublist ''error: '' w' \<longrightarrow> length f' \<le> length f"
    by blast
  have gd: "groupdict ClangCompilerVariant_error_regex m =
      [''file'' \<mapsto> StrVal f, ''row'' \<mapsto> StrVal r, ''col'' \<mapsto> StrVal c, ''error'' \<mapsto> StrVal e]"
    unfolding m by (rule groupdict_four [OF group_names_clang])
  have fields: "groupdict ClangCompilerVariant_error_regex m ''file'' = Some (StrVal f)"
    "groupdict ClangCompilerVariant_error_regex m ''row'' = Some (StrVal r)"
    "groupdict ClangCompilerVariant_error_regex m ''col'' = Some (StrVal c)"
    unfolding gd by simp_all
  have sub: "sublist ''error: '' (w @ ''error: '' @ e @ t)"
    by (rule sublist_appendI)
  have "groupdict ClangCompilerVariant_error_regex m \<in>
      set (clang_loop ClangCompilerVariant_error_regex [] (splitlines s))"
    using assms by (rule clang_loop_member)
  then have out: "\<exists>errs. errors_from_output ClangCompilerVariant (Text s) = Inr errs \<and>
      groupdict ClangCompilerVariant_error_regex m \<in> set errs"
    by simp
  from l d sub fields out mx show ?thesis
    by (rule_tac x = f in exI, rule_tac x = r in exI, rule_tac x = c in exI,
        rule_tac x = "w @ ''error: '' @ e @ t" in exI) (intro conjI; assumption)
qed

theorem clang_file_longest_prefix_witness:
  "\<exists>f r c w.
      ''a.cpp:1:2: b.cpp:3:4: error: msg'' = f @ CHR '':'' # r @ CHR '':'' # c @ CHR '':'' # w \<and>
      r \<noteq> [] \<and> list_all is_digit r \<and> c \<noteq> [] \<and> list_all is_digit c \<and>
      sublist ''error: '' w \<and>
      groupdict ClangCompilerVariant_error_regex
        [''file'' \<mapsto> ''a.cpp:1:2: b.cpp'', ''row'' \<mapsto> ''3'', ''col'' \<mapsto> ''4'', ''error'' \<mapsto> ''msg'']
        ''file'' = Some (StrVal f) \<and>
      groupdict ClangCompilerVariant_error_regex
        [''file'' \<mapsto> ''a.cpp:1:2: b.cpp'', ''row'' \<mapsto> ''3'', ''col'' \<mapsto> ''4'', ''error'' \<mapsto> ''msg'']
        ''row'' = Some (StrVal r) \<and>
      groupdict ClangCompilerVariant_error_regex
        [''file'' \<mapsto> ''a.cpp:1:2: b.cpp'', ''row'' \<mapsto> ''3'', ''col'' \<mapsto> ''4'', ''error'' \<mapsto> ''msg'']
        ''col'' = Some (StrVal c) \<and>
      (\<exists>errs. errors_from_output ClangCompilerVariant (Text ''a.cpp:1:2: b.cpp:3:4: error: msg'') =
           Inr errs \<and>
         groupdict ClangCompilerVariant_error_regex
           [''file'' \<mapsto> ''a.cpp:1:2: b.cpp'', ''row'' \<mapsto> ''3'', ''col'' \<mapsto> ''4'', ''error'' \<mapsto> ''msg'']
           \<in> set errs) \<and>
      (\<forall>f' r' c' w'.
         ''a.cpp:1:2: b.cpp:3:4: error: msg'' = f' @ CHR '':'' # r' @ CHR '':'' # c' @ CHR '':'' # w' \<and>
         r' \<noteq> [] \<and> list_all is_digit r' \<and> c' \<noteq> [] \<and> list_all is_digit c' \<and>
         sublist ''error: '' w' \<longrightarrow> length f' \<le> length f)"
proof -
  have line: "''a.cpp:1:2: b.cpp:3:4: error: msg'' \<in> set (splitlines ''a.cpp:1:2: b.cpp:3:4: error: msg'')"
    by (simp add: eval_simps)
  show ?thesis
    by (rule clang_file_longest_prefix [OF line search_clang_two_triples])
qed

section \<open>The sample lines of the clang and the clang-cl parser\<close>

text \<open>
  C5. The line \<^verbatim>\<open>foo.cpp:12:5: error: expected ';'\<close> gives exactly one record, with the
  file \<^verbatim>\<open>foo.cpp\<close>, the row 12, the column 5 and the message \<^verbatim>\<open>expected ';'\<close>: alone, and
  as a line of any output, where the record stands between the records of the lines
  before and after it. A line without the text \<^verbatim>\<open>error:\<close> gives no record.
\<close>

theorem clang_sample_line_and_lines_without_error:
  "errors_from_output ClangCompilerVariant
     (Text (''foo.cpp:12:5: error: expected ';'' @ [CHR 0x27])) =
     Inr [[''file'' \<mapsto> StrVal ''foo.cpp'', ''row'' \<mapsto> StrVal ''12'', ''col'' \<mapsto> StrVal ''5'',
           ''error'' \<mapsto> StrVal (''expected ';'' @ [CHR 0x27])]] \<and>
   (splitlines s = before @ (''foo.cpp:12:5: error: expected ';'' @ [CHR 0x27]) # after \<longrightarrow>
    errors_from_output ClangCompilerVariant (Text s) =
      Inr (clang_loop ClangCompilerVariant_error_regex [] before @
           [[''file'' \<mapsto> StrVal ''foo.cpp'', ''row'' \<mapsto> StrVal ''12'', ''col'' \<mapsto> StrVal ''5'',
             ''error'' \<mapsto> StrVal (''expected ';'' @ [CHR 0x27])]] @
           clang_loop ClangCompilerVariant_error_regex [] after)) \<and>
   (splitlines s = before @ l # after \<and> \<not> sublist ''error:'' l \<longrightarrow>
    errors_from_output ClangCompilerVariant (Text s) =
      Inr (clang_loop ClangCompilerVariant_error_regex [] before @
           clang_loop ClangCompilerVariant_error_regex [] after))"
proof (intro conjI impI)
  show "errors_from_output ClangCompilerVariant
     (Text (''foo.cpp:12:5: error: expected ';'' @ [CHR 0x27])) =
     Inr [[''file'' \<mapsto> StrVal ''foo.cpp'', ''row'' \<mapsto> StrVal ''12'', ''col'' \<mapsto> StrVal ''5'',
           ''error'' \<mapsto> StrVal (''expected ';'' @ [CHR 0x27])]]"
    by (rule clang_example_output)
next
  assume a: "splitlines s = before @ (''foo.cpp:12:5: error: expected ';'' @ [CHR 0x27]) # after"
  show "errors_from_output ClangCompilerVariant (Text s) =
      Inr (clang_loop ClangCompilerVariant_error_regex [] before @
           [[''file'' \<mapsto> StrVal ''foo.cpp'', ''row'' \<mapsto> StrVal ''12'', ''col'' \<mapsto> StrVal ''5'',
             ''error'' \<mapsto> StrVal (''expected ';'' @ [CHR 0x27])]] @
           clang_loop ClangCompilerVariant_error_regex [] after)"
    by (simp only: clang_line_records [OF a] search_clang_example option.case
        groupdict_four [OF group_names_clang])
next
  assume "splitlines s = before @ l # after \<and> \<not> sublist ''error:'' l"
  then have a: "splitlines s = before @ l # after" and
    "search ClangCompilerVariant_error_regex l = None"
    by (simp_all add: clang_no_error_token)
  then show "errors_from_output ClangCompilerVariant (Text s) =
      Inr (clang_loop ClangCompilerVariant_error_regex [] before @
           clang_loop ClangCompilerVariant_error_regex [] after)"
    by (simp only: clang_line_records [OF a] option.case append_Nil)
qed

theorem clang_sample_line_and_lines_without_error_witness:
  "errors_from_output ClangCompilerVariant
     (Text (''foo.cpp:3:1: warning: unused variable'' @ CHR 0x0A #
            ''foo.cpp:12:5: error: expected ';'' @ [CHR 0x27])) =
     Inr [[''file'' \<mapsto> StrVal ''foo.cpp'', ''row'' \<mapsto> StrVal ''12'', ''col'' \<mapsto> StrVal ''5'',
           ''error'' \<mapsto> StrVal (''expected ';'' @ [CHR 0x27])]] \<and>
   errors_from_output ClangCompilerVariant (Text ''foo.cpp:3:1: warning: unused variable'') = Inr []"
proof
  let ?s = "''foo.cpp:3:1: warning: unused variable'' @ CHR 0x0A #
            ''foo.cpp:12:5: error: expected ';'' @ [CHR 0x27]"
  have lines: "splitlines ?s =
      [''foo.cpp:3:1: warning: unused variable''] @
      (''foo.cpp:12:5: error: expected ';'' @ [CHR 0x27]) # []"
    by (simp add: eval_simps)
  have none: "search ClangCompilerVariant_error_regex ''foo.cpp:3:1: warning: unused variable'' = None"
    by (simp add: eval_simps)
  from clang_sample_line_and_lines_without_error
    [of ?s "[''foo.cpp:3:1: warning: unused variable'']" "[]"] lines
  have "errors_from_output ClangCompilerVariant (Text ?s) =
      Inr (clang_loop ClangCompilerVariant_error_regex [] [''foo.cpp:3:1: warning: unused variable''] @
           [[''file'' \<mapsto> StrVal ''foo.cpp'', ''row'' \<mapsto> StrVal ''12'', ''col'' \<mapsto> StrVal ''5'',
             ''error'' \<mapsto> StrVal (''expected ';'' @ [CHR 0x27])]] @
           clang_loop ClangCompilerVariant_error_regex [] [])"
    by blast
  then show "errors_from_output ClangCompilerVariant (Text ?s) =
     Inr [[''file'' \<mapsto> StrVal ''foo.cpp'', ''row'' \<mapsto> StrVal ''12'', ''col'' \<mapsto> StrVal ''5'',
           ''error'' \<mapsto> StrVal (''expected ';'' @ [CHR 0x27])]]"
    by (simp only: clang_loop.simps none option.case append_Nil append_Nil2)
next
  have lines: "splitlines ''foo.cpp:3:1: warning: unused variable'' =
      [] @ ''foo.cpp:3:1: warning: unused variable'' # []"
    by (simp add: eval_simps)
  have no: "\<not> sublist ''error:'' ''foo.cpp:3:1: warning: unused variable''"
    by (simp add: sublist_code)
  from clang_sample_line_and_lines_without_error
    [of "''foo.cpp:3:1: warning: unused variable''" "[]" "[]"
      "''foo.cpp:3:1: warning: unused variable''"] lines no
  have "errors_from_output ClangCompilerVariant (Text ''foo.cpp:3:1: warning: unused variable'') =
      Inr (clang_loop ClangCompilerVariant_error_regex [] [] @
           clang_loop ClangCompilerVariant_error_regex [] [])"
    by blast
  then show "errors_from_output ClangCompilerVariant (Text ''foo.cpp:3:1: warning: unused variable'') =
      Inr []"
    by (simp only: clang_loop.simps append_Nil)
qed

text \<open>
  C6. The line \<^verbatim>\<open>foo.cpp(12,5): error: missing return\<close> gives one record with the row 12
  and the column 5 in the clang-cl parser: alone, and as a line of any output, through
  the loop that the clang parser has. The same line with the position written with
  colons gives no record there.
\<close>

theorem clangcl_sample_line:
  "errors_from_output ClangClCompilerVariant (Text ''foo.cpp(12,5): error: missing return'') =
     Inr [[''file'' \<mapsto> StrVal ''foo.cpp'', ''row'' \<mapsto> StrVal ''12'', ''col'' \<mapsto> StrVal ''5'',
           ''error'' \<mapsto> StrVal ''missing return'']] \<and>
   (splitlines s = before @ ''foo.cpp(12,5): error: missing return'' # after \<longrightarrow>
    errors_from_output ClangClCompilerVariant (Text s) =
      Inr (clang_loop ClangClCompilerVariant_error_regex [] before @
           [[''file'' \<mapsto> StrVal ''foo.cpp'', ''row'' \<mapsto> StrVal ''12'', ''col'' \<mapsto> StrVal ''5'',
             ''error'' \<mapsto> StrVal ''missing return'']] @
           clang_loop ClangClCompilerVariant_error_regex [] after)) \<and>
   errors_from_output ClangClCompilerVariant (Text ''foo.cpp:12:5: error: missing return'') = Inr []"
proof (intro conjI impI)
  show "errors_from_output ClangClCompilerVariant (Text ''foo.cpp:12:5: error: missing return'') = Inr []"
    by (simp add: run_simps)
next
  show "errors_from_output ClangClCompilerVariant (Text ''foo.cpp(12,5): error: missing return'') =
     Inr [[''file'' \<mapsto> StrVal ''foo.cpp'', ''row'' \<mapsto> StrVal ''12'', ''col'' \<mapsto> StrVal ''5'',
           ''error'' \<mapsto> StrVal ''missing return'']]"
    by (rule clangcl_example_output)
next
  assume a: "splitlines s = before @ ''foo.cpp(12,5): error: missing return'' # after"
  show "errors_from_output ClangClCompilerVariant (Text s) =
      Inr (clang_loop ClangClCompilerVariant_error_regex [] before @
           [[''file'' \<mapsto> StrVal ''foo.cpp'', ''row'' \<mapsto> StrVal ''12'', ''col'' \<mapsto> StrVal ''5'',
             ''error'' \<mapsto> StrVal ''missing return'']] @
           clang_loop ClangClCompilerVariant_error_regex [] after)"
    by (simp only: clangcl_line_records [OF a] search_clangcl_example option.case
        groupdict_four [OF group_names_clangcl])
qed

theorem clangcl_sample_line_witness:
  "errors_from_output ClangClCompilerVariant
     (Text (''1 error generated.'' @ CHR 0x0D # CHR 0x0A #
            ''foo.cpp(12,5): error: missing return'' @ [CHR 0x0A])) =
     Inr [[''file'' \<mapsto> StrVal ''foo.cpp'', ''row'' \<mapsto> StrVal ''12'', ''col'' \<mapsto> StrVal ''5'',
           ''error'' \<mapsto> StrVal ''missing return'']]"
proof -
  let ?s = "''1 error generated.'' @ CHR 0x0D # CHR 0x0A #
            ''foo.cpp(12,5): error: missing return'' @ [CHR 0x0A]"
  have lines: "splitlines ?s =
      [''1 error generated.''] @ ''foo.cpp(12,5): error: missing return'' # []"
    by (simp add: eval_simps)
  have none: "search ClangClCompilerVariant_error_regex ''1 error generated.'' = None"
    by (simp add: eval_simps)
  from clangcl_sample_line [of ?s "[''1 error generated.'']" "[]"] lines
  have "errors_from_output ClangClCompilerVariant (Text ?s) =
      Inr (clang_loop ClangClCompilerVariant_error_regex [] [''1 error generated.''] @
           [[''file'' \<mapsto> StrVal ''foo.cpp'', ''row'' \<mapsto> StrVal ''12'', ''col'' \<mapsto> StrVal ''5'',
             ''error'' \<mapsto> StrVal ''missing return'']] @
           clang_loop ClangClCompilerVariant_error_regex [] [])"
    by blast
  then show ?thesis
    by (simp only: clang_loop.simps none option.case append_Nil append_Nil2)
qed

section \<open>The libclang parser\<close>

text \<open>
  C2. A spelling in double quotes: the pattern \<^verbatim>\<open>"*(?P<error>.+)"*\<close> takes the leading
  quote away, but its greedy group takes the trailing quote with the message, and the
  final \<^verbatim>\<open>"*\<close> is left with nothing. The error field of the diagnostic with the spelling
  \<^verbatim>\<open>"expected expression"\<close> ends with the quote. A spelling without quotes is kept as it
  is.
\<close>

theorem libclang_quoted_spelling_keeps_trailing_quote:
  "errors_from_output LibClangCompilerVariant
     (Diagnostics [\<lparr>location = '''foo.cpp', line 7, column 3'',
                    spelling = CHR 0x22 # ''expected expression'' @ [CHR 0x22]\<rparr>]) =
     Inr [[''file'' \<mapsto> StrVal ''foo.cpp'', ''row'' \<mapsto> StrVal ''7'', ''col'' \<mapsto> StrVal ''3'',
           ''error'' \<mapsto> StrVal (''expected expression'' @ [CHR 0x22])]] \<and>
   errors_from_output LibClangCompilerVariant
     (Diagnostics [\<lparr>location = '''foo.cpp', line 7, column 3'',
                    spelling = ''expected expression''\<rparr>]) =
     Inr [[''file'' \<mapsto> StrVal ''foo.cpp'', ''row'' \<mapsto> StrVal ''7'', ''col'' \<mapsto> StrVal ''3'',
           ''error'' \<mapsto> StrVal ''expected expression'']]"
  by (simp only: libclang_quoted_output libclang_example_output simp_thms)

text \<open>
  C4. A diagnostic whose location the position pattern does not match (one without
  the word \<^verbatim>\<open>line\<close> or without the word \<^verbatim>\<open>column\<close>, for instance), or whose spelling the
  message pattern does not match, leaves the result as it is without that diagnostic:
  the parser returns, no record stands for the diagnostic, and the result has at most
  as many records as there are other diagnostics.
\<close>

theorem libclang_unmatched_record_dropped:
  assumes "\<not> sublist ''line'' (location d) \<or> \<not> sublist ''column'' (location d) \<or>
    search pos_regex (location d) = None \<or> search msg_regex (spelling d) = None"
  shows "errors_from_output LibClangCompilerVariant (Diagnostics (ds1 @ d # ds2)) =
      errors_from_output LibClangCompilerVariant (Diagnostics (ds1 @ ds2)) \<and>
    (\<exists>errs. errors_from_output LibClangCompilerVariant (Diagnostics (ds1 @ d # ds2)) = Inr errs \<and>
       length errs \<le> length ds1 + length ds2)"
proof -
  from assms have "search pos_regex (location d) = None \<or> search msg_regex (spelling d) = None"
    using pos_regex_tokens [of "location d"] by (cases "search pos_regex (location d)") auto
  then have skip: "libclang_loop [] (ds1 @ d # ds2) = libclang_loop [] (ds1 @ ds2)"
    by (rule libclang_loop_skip)
  have "length (libclang_loop [] (ds1 @ ds2)) \<le> length (ds1 @ ds2)"
    by (rule length_libclang_loop)
  with skip show ?thesis by simp
qed

theorem libclang_unmatched_record_dropped_witness:
  "errors_from_output LibClangCompilerVariant
     (Diagnostics [\<lparr>location = '''foo.cpp', line 7, column 3'', spelling = ''expected expression''\<rparr>,
                   \<lparr>location = ''foo.cpp:9:1'', spelling = ''unknown type name''\<rparr>]) =
     Inr [[''file'' \<mapsto> StrVal ''foo.cpp'', ''row'' \<mapsto> StrVal ''7'', ''col'' \<mapsto> StrVal ''3'',
           ''error'' \<mapsto> StrVal ''expected expression'']]"
proof -
  let ?good = "\<lparr>location = '''foo.cpp', line 7, column 3'', spelling = ''expected expression''\<rparr>"
  let ?bad = "\<lparr>location = ''foo.cpp:9:1'', spelling = ''unknown type name''\<rparr>"
  have "\<not> sublist ''line'' (location ?bad)"
    by (simp add: sublist_code)
  then have "\<not> sublist ''line'' (location ?bad) \<or> \<not> sublist ''column'' (location ?bad) \<or>
    search pos_regex (location ?bad) = None \<or> search msg_regex (spelling ?bad) = None"
    by (rule disjI1)
  from libclang_unmatched_record_dropped [OF this, of "[?good]" "[]"]
  have "errors_from_output LibClangCompilerVariant (Diagnostics ([?good] @ ?bad # [])) =
      errors_from_output LibClangCompilerVariant (Diagnostics ([?good] @ []))"
    by (rule conjunct1)
  then show ?thesis
    by (simp only: append_Cons append_Nil libclang_example_output)
qed

section \<open>Order and shape of the result\<close>

text \<open>
  C8. The result lists the records of the matching lines (of the matching diagnostics,
  for libclang) by increasing position in the input: it is the list of the matching
  positions, in increasing order, with every position replaced by the record of its
  line or diagnostic.
\<close>

theorem output_order_mirrors_input:
  "errors_from_output ClangCompilerVariant (Text s) =
     Inr (map (\<lambda>p. groupdict ClangCompilerVariant_error_regex
                 (the (search ClangCompilerVariant_error_regex (splitlines s ! p))))
            (filter (\<lambda>p. search ClangCompilerVariant_error_regex (splitlines s ! p) \<noteq> None)
               [0..<length (splitlines s)])) \<and>
   errors_from_output ClangClCompilerVariant (Text s) =
     Inr (map (\<lambda>p. groupdict ClangClCompilerVariant_error_regex
                 (the (search ClangClCompilerVariant_error_regex (splitlines s ! p))))
            (filter (\<lambda>p. search ClangClCompilerVariant_error_regex (splitlines s ! p) \<noteq> None)
               [0..<length (splitlines s)])) \<and>
   errors_from_output LibClangCompilerVariant (Diagnostics ds) =
     Inr (map (\<lambda>p. groupdict pos_regex (the (search pos_regex (location (ds ! p)))) ++
                    groupdict msg_regex (the (search msg_regex (spelling (ds ! p)))))
            (filter (\<lambda>p. search pos_regex (location (ds ! p)) \<noteq> None \<and>
                          search msg_regex (spelling (ds ! p)) \<noteq> None)
               [0..<length ds])) \<and>
   sorted_wrt (<) (filter (\<lambda>p. search ClangCompilerVariant_error_regex (splitlines s ! p) \<noteq> None)
               [0..<length (splitlines s)]) \<and>
   sorted_wrt (<) (filter (\<lambda>p. search ClangClCompilerVariant_error_regex (splitlines s ! p) \<noteq> None)
               [0..<length (splitlines s)]) \<and>
   sorted_wrt (<) (filter (\<lambda>p. search pos_regex (location (ds ! p)) \<noteq> None \<and>
                          search msg_regex (spelling (ds ! p)) \<noteq> None)
               [0..<length ds])"
proof (intro conjI)
  show "errors_from_output ClangCompilerVariant (Text s) =
     Inr (map (\<lambda>p. groupdict ClangCompilerVariant_error_regex
                 (the (search ClangCompilerVariant_error_regex (splitlines s ! p))))
            (filter (\<lambda>p. search ClangCompilerVariant_error_regex (splitlines s ! p) \<noteq> None)
               [0..<length (splitlines s)]))"
    using clang_loop_positions [of ClangCompilerVariant_error_regex "splitlines s"] by simp
  show "errors_from_output ClangClCompilerVariant (Text s) =
     Inr (map (\<lambda>p. groupdict ClangClCompilerVariant_error_regex
                 (the (search ClangClCompilerVariant_error_regex (splitlines s ! p))))
            (filter (\<lambda>p. search ClangClCompilerVariant_error_regex (splitlines s ! p) \<noteq> None)
               [0..<length (splitlines s)]))"
    using clang_loop_positions [of ClangClCompilerVariant_error_regex "splitlines s"] by simp
  show "errors_from_output LibClangCompilerVariant (Diagnostics ds) =
     Inr (map (\<lambda>p. groupdict pos_regex (the (search pos_regex (location (ds ! p)))) ++
                    groupdict msg_regex (the (search msg_regex (spelling (ds ! p)))))
            (filter (\<lambda>p. search pos_regex (location (ds ! p)) \<noteq> None \<and>
                          search msg_regex (spelling (ds ! p)) \<noteq> None)
               [0..<length ds]))"
    using libclang_loop_positions [of ds] by simp
qed (simp_all add: sorted_wrt_filter)

text \<open>
  C9. Every dictionary of a result has exactly the keys \<^verbatim>\<open>file\<close>, \<^verbatim>\<open>row\<close>, \<^verbatim>\<open>col\<close> and
  \<^verbatim>\<open>error\<close>, all four values are texts, and the values of \<^verbatim>\<open>row\<close> and \<^verbatim>\<open>col\<close> are
  not empty and consist of decimal digits.
\<close>

theorem error_dict_keys_and_digits:
  assumes "errors_from_output v outp = Inr errs" and "d \<in> set errs"
  shows "dom d = {''file'', ''row'', ''col'', ''error''} \<and>
    (\<exists>f r c e. d ''file'' = Some (StrVal f) \<and> d ''row'' = Some (StrVal r) \<and>
       d ''col'' = Some (StrVal c) \<and> d ''error'' = Some (StrVal e) \<and>
       r \<noteq> [] \<and> list_all is_digit r \<and> c \<noteq> [] \<and> list_all is_digit c)"
proof -
  from errors_from_output_dict [OF assms] obtain f r c e where
    d: "d = [''file'' \<mapsto> StrVal f, ''row'' \<mapsto> StrVal r, ''col'' \<mapsto> StrVal c, ''error'' \<mapsto> StrVal e]" and
    digits: "r \<noteq> []" "list_all is_digit r" "c \<noteq> []" "list_all is_digit c"
    by blast
  have "dom d = {''file'', ''row'', ''col'', ''error''}"
    unfolding d by (rule dom_error_dict)
  moreover have "d ''file'' = Some (StrVal f)" "d ''row'' = Some (StrVal r)"
    "d ''col'' = Some (StrVal c)" "d ''error'' = Some (StrVal e)"
    unfolding d by simp_all
  ultimately show ?thesis using digits by blast
qed

theorem error_dict_keys_and_digits_witness:
  "dom [''file'' \<mapsto> StrVal ''foo.cpp'', ''row'' \<mapsto> StrVal ''12'', ''col'' \<mapsto> StrVal ''5'',
        ''error'' \<mapsto> StrVal ''missing return''] = {''file'', ''row'', ''col'', ''error''} \<and>
   (\<exists>f r c e.
      [''file'' \<mapsto> StrVal ''foo.cpp'', ''row'' \<mapsto> StrVal ''12'', ''col'' \<mapsto> StrVal ''5'',
       ''error'' \<mapsto> StrVal ''missing return''] ''file'' = Some (StrVal f) \<and>
      [''file'' \<mapsto> StrVal ''foo.cpp'', ''row'' \<mapsto> StrVal ''12'', ''col'' \<mapsto> StrVal ''5'',
       ''error'' \<mapsto> StrVal ''missing return''] ''row'' = Some (StrVal r) \<and>
      [''file'' \<mapsto> StrVal ''foo.cpp'', ''row'' \<mapsto> StrVal ''12'', ''col'' \<mapsto> StrVal ''5'',
       ''error'' \<mapsto> StrVal ''missing return''] ''col'' = Some (StrVal c) \<and>
      [''file'' \<mapsto> StrVal ''foo.cpp'', ''row'' \<mapsto> StrVal ''12'', ''col'' \<mapsto> StrVal ''5'',
       ''error'' \<mapsto> StrVal ''missing return''] ''error'' = Some (StrVal e) \<and>
      r \<noteq> [] \<and> list_all is_digit r \<and> c \<noteq> [] \<and> list_all is_digit c)"
proof -
  let ?d = "[''file'' \<mapsto> StrVal ''foo.cpp'', ''row'' \<mapsto> StrVal ''12'', ''col'' \<mapsto> StrVal ''5'',
        ''error'' \<mapsto> StrVal ''missing return'']"
  have "?d \<in> set [?d]" by (simp only: list.set insert_iff simp_thms)
  with clangcl_example_output show ?thesis
    by (rule error_dict_keys_and_digits)
qed

end
